theory Spec2Isabelle
  imports Main
begin

text \<open>
  The coupon service of \<^verbatim>\<open>main.py\<close> and \<^verbatim>\<open>schemas.py\<close>: the sequencer
  \<^verbatim>\<open>_get_next_sequence\<close> on the \<^verbatim>\<open>counters\<close> collection, the formatting of the coupon
  code, and the request handler \<^verbatim>\<open>generate_coupon\<close>. The store is explicit state that
  every operation takes and returns; exceptions are values; the store's
  \<^verbatim>\<open>find_one_and_update\<close> is one atomic transition.
\<close>

section \<open>Values, documents and the document store\<close>

text \<open>
  The values the counter document's \<^verbatim>\<open>value\<close> field can hold as far as this
  development follows them: null, a boolean, or an integer (Python's unbounded \<open>int\<close>).
  Strings, doubles and nested documents are outside the model, and so is the 64-bit
  limit of the store's integers.
\<close>

datatype bson = BNull | BBool bool | BInt int

text \<open>
  A document is a dictionary from field names to values. A collection of counter
  documents is keyed by the document's \<^verbatim>\<open>_id\<close>, which is the sequence name.
\<close>

type_synonym document = "string \<rightharpoonup> bson"

text \<open>The \<^verbatim>\<open>Coupon\<close> model of \<^verbatim>\<open>schemas.py\<close>.\<close>

record coupon =
  code :: string
  channel :: "string option"
  redeemed :: bool

text \<open>
  The store: the \<^verbatim>\<open>counters\<close> collection and, for every other collection name, the
  list of inserted coupon records in insertion order.
\<close>

record database =
  counters :: "string \<rightharpoonup> document"
  collections :: "string \<Rightarrow> coupon list"

text \<open>
  Exceptions: FastAPI's \<^verbatim>\<open>HTTPException(status_code, detail)\<close> and every other
  \<^verbatim>\<open>Exception\<close>, carrying its message.
\<close>

datatype exn = HTTPException int string | Exception string

type_synonym bytes = "nat list"

datatype response =
    StreamingResponse bytes string "(string \<times> string) list"
  | JSONResponse int "(string \<times> string) list"

text \<open>
  What one request depends on outside the store's contents: whether \<^verbatim>\<open>database.db\<close>
  is a handle or \<^verbatim>\<open>None\<close>, whether the insert of this request succeeds, and the
  imaging library (\<open>None\<close> when it cannot be imported, otherwise the drawing and
  encoding of a code, which may itself raise).
\<close>

record env =
  db_configured :: bool
  insert_ok :: bool
  pil :: "(string \<Rightarrow> exn + bytes) option"

text \<open>The calls a request makes to its collaborators, in the order it makes them.\<close>

datatype event = NextSequence string | CreateDocument string coupon | BuildImage string

section \<open>The sequencer\<close>

text \<open>
  The update operator \<^verbatim>\<open>{"$inc": {field: amount}}\<close> on one document: an absent
  field is set to the amount, an integer field is incremented, any other field makes
  the update fail.
\<close>

definition inc_field :: "document \<Rightarrow> string \<Rightarrow> int \<Rightarrow> exn + document" where
  "inc_field d f k =
     (case d f of
        None \<Rightarrow> Inr (d(f \<mapsto> BInt k))
      | Some (BInt v) \<Rightarrow> Inr (d(f \<mapsto> BInt (v + k)))
      | Some _ \<Rightarrow> Inl (Exception ''Cannot apply $inc to a value of non-numeric type''))"

text \<open>
  \<^verbatim>\<open>find_one_and_update({"_id": key}, {"$inc": {field: amount}}, upsert=True,
  return_document=ReturnDocument.AFTER)\<close> as one atomic transition of the collection:
  the matching document (a new one when none matches) is updated and the updated
  document is returned.
\<close>

definition find_one_and_update ::
  "(string \<rightharpoonup> document) \<Rightarrow> string \<Rightarrow> string \<Rightarrow> int \<Rightarrow> exn + (document \<times> (string \<rightharpoonup> document))" where
  "find_one_and_update coll key f k =
     (case inc_field (case coll key of None \<Rightarrow> Map.empty | Some d \<Rightarrow> d) f k of
        Inl e \<Rightarrow> Inl e
      | Inr d' \<Rightarrow> Inr (d', coll(key \<mapsto> d')))"

text \<open>
  \<^verbatim>\<open>doc.get(field)\<close>, which is \<^verbatim>\<open>None\<close> for an absent field (null and \<^verbatim>\<open>None\<close>
  are the same Python value), Python's truth value, and \<^verbatim>\<open>x or y\<close>.
\<close>

definition dict_get :: "document \<Rightarrow> string \<Rightarrow> bson" where
  "dict_get d f = (case d f of None \<Rightarrow> BNull | Some v \<Rightarrow> v)"

fun truthy :: "bson \<Rightarrow> bool" where
  "truthy BNull = False"
| "truthy (BBool b) = b"
| "truthy (BInt n) = (n \<noteq> 0)"

definition py_or :: "bson \<Rightarrow> bson \<Rightarrow> bson" where
  "py_or x y = (if truthy x then x else y)"

text \<open>Python's \<^verbatim>\<open>int(x)\<close>.\<close>

fun py_int :: "bson \<Rightarrow> exn + int" where
  "py_int (BInt n) = Inr n"
| "py_int (BBool b) = Inr (if b then 1 else 0)"
| "py_int BNull = Inl (Exception ''int() argument must be a string, a bytes-like object or a real number'')"

text \<open>
  The last two lines of \<^verbatim>\<open>_get_next_sequence\<close>, on the document the update returned:
  \<^verbatim>\<open>value = doc.get("value") or 1; return int(value)\<close>.
\<close>

definition returned_value :: "document \<Rightarrow> exn + int" where
  "returned_value doc = py_int (py_or (dict_get doc ''value'') (BInt 1))"

text \<open>
  \<^verbatim>\<open>_get_next_sequence(seq_name)\<close>. The result comes with the store after the call;
  a call that raises before the update leaves the store as it was.
\<close>

definition get_next_sequence :: "bool \<Rightarrow> database \<Rightarrow> string \<Rightarrow> (exn + int) \<times> database" where
  "get_next_sequence configured st seq_name =
     (if \<not> configured then (Inl (HTTPException 500 ''Database not configured''), st)
      else
        (case find_one_and_update (counters st) seq_name ''value'' 1 of
           Inl e \<Rightarrow> (Inl e, st)
         | Inr (doc, cs) \<Rightarrow>
             (returned_value doc, st\<lparr>counters := cs\<rparr>)))"

section \<open>Formatting the code\<close>

definition COUPON_PREFIX :: string where
  "COUPON_PREFIX = ''WBAU10DIC-''"

definition digit_char :: "nat \<Rightarrow> char" where
  "digit_char d = ''0123456789'' ! d"

text \<open>The decimal digits of a natural number, most significant first.\<close>

fun digits :: "nat \<Rightarrow> string" where
  "digits n = (if n < 10 then [digit_char n] else digits (n div 10) @ [digit_char (n mod 10)])"

declare digits.simps [simp del]

text \<open>
  Python's format specification \<^verbatim>\<open>06d\<close>: the sign (only \<^verbatim>\<open>-\<close>), then zeros, then
  the digits, the zeros filling the whole up to six characters.
\<close>

definition format_06d :: "int \<Rightarrow> string" where
  "format_06d n =
     (let sign = (if n < 0 then ''-'' else '''');
          ds = digits (nat \<bar>n\<bar>)
      in sign @ replicate (6 - (length sign + length ds)) (CHR ''0'') @ ds)"

section \<open>Issuing a coupon\<close>

text \<open>\<^verbatim>\<open>Coupon(code=code)\<close>: the other fields take their defaults.\<close>

definition Coupon :: "string \<Rightarrow> coupon" where
  "Coupon c = \<lparr>code = c, channel = Some ''whatsapp'', redeemed = False\<rparr>"

text \<open>
  Modelled from the spec: \<^verbatim>\<open>create_document\<close> of the \<^verbatim>\<open>database\<close> module, which is
  not among the sources. It is the store's insert primitive: it fails with a
  configuration error when no store is configured, with a persistence error when
  the write does not succeed, and otherwise adds the record to the collection.
\<close>

definition create_document :: "env \<Rightarrow> string \<Rightarrow> coupon \<Rightarrow> database \<Rightarrow> exn + database" where
  "create_document e collection_name doc st =
     (if \<not> db_configured e then Inl (Exception ''ConfigurationError'')
      else if \<not> insert_ok e then Inl (Exception ''PersistenceError'')
      else Inr (st\<lparr>collections := (collections st)(collection_name := collections st collection_name @ [doc])\<rparr>))"

text \<open>
  \<^verbatim>\<open>_build_coupon_image(code)\<close>: the lazy import, then the drawing, which is the
  imaging library's work.
\<close>

definition build_coupon_image :: "env \<Rightarrow> string \<Rightarrow> exn + bytes" where
  "build_coupon_image e c =
     (case pil e of
        None \<Rightarrow> Inl (HTTPException 503 ''Image generator unavailable. Please try again later.'')
      | Some draw \<Rightarrow> draw c)"

text \<open>
  The two \<^verbatim>\<open>except\<close> clauses of \<^verbatim>\<open>generate_coupon\<close>: an \<^verbatim>\<open>HTTPException\<close> is raised
  again, any other exception becomes a JSON response with status 500.
\<close>

fun handle_exception :: "exn \<Rightarrow> exn + response" where
  "handle_exception (HTTPException s d) = Inl (HTTPException s d)"
| "handle_exception (Exception msg) = Inr (JSONResponse 500 [(''error'', msg)])"

text \<open>
  \<^verbatim>\<open>generate_coupon()\<close>: the outcome (a response, or the exception raised), the store
  after the request, and the collaborator calls made.
\<close>

definition generate_coupon :: "env \<Rightarrow> database \<Rightarrow> (exn + response) \<times> database \<times> event list" where
  "generate_coupon e st =
     (case get_next_sequence (db_configured e) st ''coupon'' of
        (Inl x, st1) \<Rightarrow> (handle_exception x, st1, [NextSequence ''coupon''])
      | (Inr seq, st1) \<Rightarrow>
          (let c = COUPON_PREFIX @ format_06d seq;
               doc = Coupon c
           in case create_document e ''coupon'' doc st1 of
                Inl x \<Rightarrow>
                  (handle_exception x, st1, [NextSequence ''coupon'', CreateDocument ''coupon'' doc])
              | Inr st2 \<Rightarrow>
                  (case build_coupon_image e c of
                     Inl x \<Rightarrow>
                       (handle_exception x, st2,
                        [NextSequence ''coupon'', CreateDocument ''coupon'' doc, BuildImage c])
                   | Inr png_bytes \<Rightarrow>
                       (Inr (StreamingResponse png_bytes ''image/png''
                              [(''Content-Disposition'',
                                ''attachment; filename='' @ ''miabaucoupon_'' @ c @ ''.png''),
                               (''X-Coupon-Code'', c)]),
                        st2,
                        [NextSequence ''coupon'', CreateDocument ''coupon'' doc, BuildImage c]))))"

section \<open>Example stores and environments\<close>

text \<open>A store in which nothing has been written yet.\<close>

definition fresh_store :: database where
  "fresh_store = \<lparr>counters = Map.empty, collections = (\<lambda>_. [])\<rparr>"

text \<open>A store whose \<^verbatim>\<open>coupon\<close> counter holds a negative number.\<close>

definition negative_store :: database where
  "negative_store =
     \<lparr>counters = [''coupon'' \<mapsto> [''value'' \<mapsto> BInt (- 5)]], collections = (\<lambda>_. [])\<rparr>"

text \<open>
  An environment in which everything works; its imaging library returns the bytes of
  the code in place of a picture.
\<close>

definition working_env :: env where
  "working_env = \<lparr>db_configured = True, insert_ok = True, pil = Some (\<lambda>c. Inr (map of_char c))\<rparr>"

text \<open>A store after two issued coupons.\<close>

definition used_store :: database where
  "used_store =
     \<lparr>counters = [''coupon'' \<mapsto> [''value'' \<mapsto> BInt 2]],
      collections = (\<lambda>_. [])(''coupon'' := [Coupon ''WBAU10DIC-000001'', Coupon ''WBAU10DIC-000002''])\<rparr>"

text \<open>Environments in which one thing is wrong: no store handle, the insert, the imaging library.\<close>

definition unconfigured_env :: env where
  "unconfigured_env = working_env\<lparr>db_configured := False\<rparr>"

definition failing_insert_env :: env where
  "failing_insert_env = working_env\<lparr>insert_ok := False\<rparr>"


text \<open>A store whose \<^verbatim>\<open>coupon\<close> counter holds -1.\<close>

definition minus_one_store :: database where
  "minus_one_store =
     \<lparr>counters = [''coupon'' \<mapsto> [''value'' \<mapsto> BInt (- 1)]], collections = (\<lambda>_. [])\<rparr>"

section \<open>Observations\<close>

text \<open>The \<^verbatim>\<open>value\<close> field stored for a sequence name, if there is one.\<close>

definition stored_value :: "database \<Rightarrow> string \<Rightarrow> bson option" where
  "stored_value st seq_name = (case counters st seq_name of None \<Rightarrow> None | Some d \<Rightarrow> d ''value'')"

text \<open>The stored counter as a number: 0 when there is none (or it is not an integer).\<close>

definition counter_int :: "database \<Rightarrow> string \<Rightarrow> int" where
  "counter_int st seq_name = (case stored_value st seq_name of Some (BInt v) \<Rightarrow> v | _ \<Rightarrow> 0)"

text \<open>The data model's condition on a counter: no negative number is stored.\<close>

definition counter_nonneg :: "database \<Rightarrow> string \<Rightarrow> bool" where
  "counter_nonneg st seq_name = (case stored_value st seq_name of Some (BInt v) \<Rightarrow> 0 \<le> v | _ \<Rightarrow> True)"

text \<open>The number a string of decimal digits denotes.\<close>

definition decimal_value :: "string \<Rightarrow> nat" where
  "decimal_value s = foldl (\<lambda>a c. 10 * a + (of_char c - 48)) 0 s"

text \<open>Whether a request ended in the image response, and the code its header exposes.\<close>

fun is_image :: "exn + response \<Rightarrow> bool" where
  "is_image (Inr (StreamingResponse b m h)) = True"
| "is_image _ = False"

fun response_code :: "exn + response \<Rightarrow> string option" where
  "response_code (Inr (StreamingResponse b m h)) = map_of h ''X-Coupon-Code''"
| "response_code _ = None"

section \<open>Sequences of calls\<close>

text \<open>Calls of \<^verbatim>\<open>_get_next_sequence\<close> one after the other, with their results in order.\<close>

fun next_all :: "bool \<Rightarrow> string list \<Rightarrow> database \<Rightarrow> (exn + int) list \<times> database" where
  "next_all configured [] st = ([], st)"
| "next_all configured (seq_name # names) st =
     (case get_next_sequence configured st seq_name of
        (r, st1) \<Rightarrow> (case next_all configured names st1 of (rs, st2) \<Rightarrow> (r # rs, st2)))"

text \<open>The numbers returned for one sequence name, in call order.\<close>

fun returned_for :: "string \<Rightarrow> string list \<Rightarrow> (exn + int) list \<Rightarrow> int list" where
  "returned_for seq_name (nm # names) (Inr n # rs) =
     (if nm = seq_name then n # returned_for seq_name names rs else returned_for seq_name names rs)"
| "returned_for seq_name (nm # names) (Inl x # rs) = returned_for seq_name names rs"
| "returned_for seq_name _ _ = []"

text \<open>Requests to \<^verbatim>\<open>POST /coupon\<close> one after the other, each in its own environment.\<close>

fun issue_all :: "env list \<Rightarrow> database \<Rightarrow> (exn + response) list \<times> database" where
  "issue_all [] st = ([], st)"
| "issue_all (e # es) st =
     (case generate_coupon e st of
        (r, st1, _) \<Rightarrow> (case issue_all es st1 of (rs, st2) \<Rightarrow> (r # rs, st2)))"

section \<open>Concurrent callers\<close>

text \<open>
  A caller of \<^verbatim>\<open>_get_next_sequence\<close> is about to run the update, or holds the document
  the update returned, or has finished with a result. The update is one atomic step of
  the store; what follows it touches only the caller's own document.
\<close>

datatype proc = Ready | Fetched document | Done "exn + int"

fun proc_step :: "bool \<Rightarrow> string \<Rightarrow> proc \<Rightarrow> database \<Rightarrow> proc \<times> database" where
  "proc_step configured seq_name Ready st =
     (if \<not> configured then (Done (Inl (HTTPException 500 ''Database not configured'')), st)
      else
        (case find_one_and_update (counters st) seq_name ''value'' 1 of
           Inl e \<Rightarrow> (Done (Inl e), st)
         | Inr (doc, cs) \<Rightarrow> (Fetched doc, st\<lparr>counters := cs\<rparr>)))"
| "proc_step configured seq_name (Fetched doc) st = (Done (returned_value doc), st)"
| "proc_step configured seq_name (Done r) st = (Done r, st)"

text \<open>
  A schedule names, step by step, the caller that moves next; every interleaving of
  the callers is a schedule.
\<close>

fun run_schedule :: "bool \<Rightarrow> string \<Rightarrow> nat list \<Rightarrow> proc list \<times> database \<Rightarrow> proc list \<times> database" where
  "run_schedule configured seq_name [] c = c"
| "run_schedule configured seq_name (i # sched) (ps, st) =
     (if i < length ps
      then (case proc_step configured seq_name (ps ! i) st of
              (p, st1) \<Rightarrow> run_schedule configured seq_name sched (ps[i := p], st1))
      else run_schedule configured seq_name sched (ps, st))"

text \<open>The numbers the callers have returned, in the callers' order.\<close>

fun result_of :: "proc \<Rightarrow> int list" where
  "result_of (Done (Inr n)) = [n]"
| "result_of _ = []"

definition returned :: "proc list \<Rightarrow> int list" where
  "returned ps = concat (map result_of ps)"

fun finished :: "proc \<Rightarrow> bool" where
  "finished (Done (Inr n)) = True"
| "finished _ = False"

text \<open>
  The number a caller holds once the update has given it one, the condition under
  which a caller is in order, and the invariant of a set of callers on one sequence
  name: the counter is absent or a non-negative integer, every caller is in order, and
  the numbers held are, without repetition, the numbers from 1 to the counter.
\<close>

fun ticket :: "proc \<Rightarrow> int list" where
  "ticket Ready = []"
| "ticket (Fetched doc) = (case doc ''value'' of Some (BInt v) \<Rightarrow> [v] | _ \<Rightarrow> [])"
| "ticket (Done (Inr n)) = [n]"
| "ticket (Done (Inl x)) = []"

definition tickets :: "proc list \<Rightarrow> int list" where
  "tickets ps = concat (map ticket ps)"

fun proc_ok :: "proc \<Rightarrow> bool" where
  "proc_ok Ready = True"
| "proc_ok (Fetched doc) = (case doc ''value'' of Some (BInt v) \<Rightarrow> 1 \<le> v | _ \<Rightarrow> False)"
| "proc_ok (Done (Inr n)) = True"
| "proc_ok (Done (Inl x)) = False"

definition counter_valid :: "database \<Rightarrow> string \<Rightarrow> bool" where
  "counter_valid st seq_name =
     (case stored_value st seq_name of None \<Rightarrow> True | Some (BInt v) \<Rightarrow> 0 \<le> v | _ \<Rightarrow> False)"

definition callers_inv :: "string \<Rightarrow> proc list \<Rightarrow> database \<Rightarrow> bool" where
  "callers_inv seq_name ps st =
     (counter_valid st seq_name \<and> list_all proc_ok ps \<and> distinct (tickets ps) \<and>
      set (tickets ps) = {1..counter_int st seq_name})"

text \<open>How far a caller has come: 0 before the update, 1 with the document, 2 when done.\<close>

fun stage :: "proc \<Rightarrow> nat" where
  "stage Ready = 0"
| "stage (Fetched doc) = 1"
| "stage (Done r) = 2"

text \<open>
  A weaker invariant, for callers started on any counter that holds no negative
  number: a document a caller holds carries an integer that is at least 1, and no
  number held exceeds the counter.
\<close>

fun fetched_ok :: "proc \<Rightarrow> bool" where
  "fetched_ok (Fetched doc) = (case doc ''value'' of Some (BInt v) \<Rightarrow> 1 \<le> v | _ \<Rightarrow> False)"
| "fetched_ok _ = True"

definition callers_bound :: "string \<Rightarrow> proc list \<Rightarrow> database \<Rightarrow> bool" where
  "callers_bound seq_name ps st =
     (counter_nonneg st seq_name \<and> list_all fetched_ok ps \<and>
      list_all (\<lambda>n. n \<le> counter_int st seq_name) (tickets ps))"

section \<open>Properties of the sequencer\<close>

lemma get_next_sequence_unused:
  "counters st name = None \<Longrightarrow>
   get_next_sequence True st name =
     (Inr 1, st\<lparr>counters := (counters st)(name \<mapsto> [''value'' \<mapsto> BInt 1])\<rparr>)"
  by (simp add: get_next_sequence_def find_one_and_update_def inc_field_def returned_value_def
      dict_get_def py_or_def)

lemma get_next_sequence_stored_int:
  "stored_value st name = Some (BInt v) \<Longrightarrow>
   fst (get_next_sequence True st name) = Inr (if v + 1 = 0 then 1 else v + 1)"
  by (auto simp: stored_value_def get_next_sequence_def find_one_and_update_def inc_field_def
      returned_value_def dict_get_def py_or_def split: option.splits)

lemma get_next_sequence_stored_none:
  "stored_value st name = None \<Longrightarrow> fst (get_next_sequence True st name) = Inr 1"
  by (auto simp: stored_value_def get_next_sequence_def find_one_and_update_def inc_field_def
      returned_value_def dict_get_def py_or_def split: option.splits)

lemma returned_value_falsy:
  "doc ''value'' = None \<or> doc ''value'' = Some (BInt 0) \<Longrightarrow> returned_value doc = Inr 1"
  by (auto simp: returned_value_def dict_get_def py_or_def)

lemma get_next_sequence_Inr_configured:
  "fst (get_next_sequence configured st name) = Inr n \<Longrightarrow> configured"
  by (cases configured) (simp_all add: get_next_sequence_def)

lemma get_next_sequence_unconfigured:
  "get_next_sequence False st name = (Inl (HTTPException 500 ''Database not configured''), st)"
  by (simp add: get_next_sequence_def)

lemma get_next_sequence_none:
  assumes "stored_value st name = None"
  shows "fst (get_next_sequence True st name) = Inr 1"
    and "stored_value (snd (get_next_sequence True st name)) name = Some (BInt 1)"
  using assms
  by (auto simp: stored_value_def get_next_sequence_def find_one_and_update_def inc_field_def
      returned_value_def dict_get_def py_or_def split: option.splits)

lemma get_next_sequence_int:
  assumes "stored_value st name = Some (BInt v)"
  shows "fst (get_next_sequence True st name) = Inr (if v + 1 = 0 then 1 else v + 1)"
    and "stored_value (snd (get_next_sequence True st name)) name = Some (BInt (v + 1))"
  using assms
  by (auto simp: stored_value_def get_next_sequence_def find_one_and_update_def inc_field_def
      returned_value_def dict_get_def py_or_def split: option.splits)

lemma get_next_sequence_collections:
  "collections (snd (get_next_sequence configured st name)) = collections st"
  by (auto simp: get_next_sequence_def find_one_and_update_def inc_field_def
      split: option.splits bson.splits sum.splits)

lemma get_next_sequence_other:
  "nm \<noteq> name \<Longrightarrow> counters (snd (get_next_sequence configured st name)) nm = counters st nm"
  by (auto simp: get_next_sequence_def find_one_and_update_def inc_field_def
      split: option.splits bson.splits sum.splits)

lemma get_next_sequence_not_int:
  assumes "stored_value st name = Some b" and "\<forall>v. b \<noteq> BInt v"
  shows "\<exists>x. get_next_sequence True st name = (Inl x, st)"
  using assms
  by (cases b)
    (auto simp: stored_value_def get_next_sequence_def find_one_and_update_def inc_field_def
      split: option.splits)

lemma get_next_sequence_Inl_unchanged:
  "fst (get_next_sequence configured st name) = Inl x \<Longrightarrow> snd (get_next_sequence configured st name) = st"
  by (auto simp: get_next_sequence_def find_one_and_update_def inc_field_def returned_value_def
      dict_get_def py_or_def split: option.splits bson.splits if_splits)

lemma get_next_sequence_nonneg:
  assumes "counter_nonneg st name" and "get_next_sequence configured st name = (Inr n, st1)"
  shows "n = counter_int st name + 1 \<and> stored_value st1 name = Some (BInt n) \<and> 1 \<le> n"
proof -
  have c: configured using assms(2) get_next_sequence_Inr_configured [of configured st name n] by simp
  show ?thesis
  proof (cases "stored_value st name")
    case None
    then show ?thesis using get_next_sequence_none [OF None] assms(2) c
      by (auto simp: counter_int_def)
  next
    case (Some b)
    show ?thesis
    proof (cases b)
      case (BInt v)
      then have "0 \<le> v" using assms(1) Some by (simp add: counter_nonneg_def)
      then show ?thesis using get_next_sequence_int [of st name v] Some BInt assms(2) c
        by (auto simp: counter_int_def)
    next
      case BNull
      then show ?thesis using get_next_sequence_not_int [of st name b] Some assms(2) c by auto
    next
      case (BBool x)
      then show ?thesis using get_next_sequence_not_int [of st name b] Some assms(2) c by auto
    qed
  qed
qed

lemma stored_value_other:
  "nm \<noteq> name \<Longrightarrow> stored_value (snd (get_next_sequence configured st nm)) name = stored_value st name"
  using get_next_sequence_other [of name nm configured st] by (simp add: stored_value_def)

lemma get_next_sequence_stored_cases:
  "stored_value (snd (get_next_sequence configured st name)) name = stored_value st name \<or>
   (stored_value st name = None \<and>
    stored_value (snd (get_next_sequence configured st name)) name = Some (BInt 1)) \<or>
   (\<exists>v. stored_value st name = Some (BInt v) \<and>
    stored_value (snd (get_next_sequence configured st name)) name = Some (BInt (v + 1)))"
proof (cases configured)
  case False
  then show ?thesis by (simp add: get_next_sequence_unconfigured)
next
  case True
  show ?thesis
  proof (cases "stored_value st name")
    case None
    then show ?thesis using get_next_sequence_none(2) [OF None] True by simp
  next
    case (Some b)
    show ?thesis
    proof (cases b)
      case (BInt v)
      then show ?thesis using get_next_sequence_int(2) [of st name v] Some True by simp
    next
      case BNull
      then show ?thesis using get_next_sequence_not_int [of st name b] Some True by auto
    next
      case (BBool x)
      then show ?thesis using get_next_sequence_not_int [of st name b] Some True by auto
    qed
  qed
qed

lemma counter_int_step:
  "counter_int st name \<le> counter_int (snd (get_next_sequence configured st nm)) name"
proof (cases "nm = name")
  case False
  then show ?thesis using stored_value_other [of nm name configured st] by (simp add: counter_int_def)
next
  case True
  then show ?thesis using get_next_sequence_stored_cases [of configured st name]
    by (auto simp: counter_int_def)
qed

lemma counter_nonneg_step:
  "counter_nonneg st name \<Longrightarrow> counter_nonneg (snd (get_next_sequence configured st nm)) name"
proof (cases "nm = name")
  case False
  assume "counter_nonneg st name"
  then show ?thesis using False stored_value_other [of nm name configured st]
    by (simp add: counter_nonneg_def)
next
  case True
  assume "counter_nonneg st name"
  then show ?thesis using True get_next_sequence_stored_cases [of configured st name]
    by (auto simp: counter_nonneg_def)
qed

lemma next_all_Cons_fst:
  "fst (next_all configured (nm # names) st) =
     fst (get_next_sequence configured st nm) #
     fst (next_all configured names (snd (get_next_sequence configured st nm)))"
  by (simp split: prod.splits)

lemma next_all_Cons_snd:
  "snd (next_all configured (nm # names) st) =
     snd (next_all configured names (snd (get_next_sequence configured st nm)))"
  by (simp split: prod.splits)

lemma counter_int_next_all:
  "counter_int st name \<le> counter_int (snd (next_all configured names st)) name"
proof (induction names arbitrary: st)
  case Nil
  show ?case by simp
next
  case (Cons nm names)
  have "counter_int st name \<le> counter_int (snd (get_next_sequence configured st nm)) name"
    by (rule counter_int_step)
  also have "\<dots> \<le> counter_int (snd (next_all configured names (snd (get_next_sequence configured st nm)))) name"
    by (rule Cons.IH)
  finally show ?case by (simp only: next_all_Cons_snd)
qed

lemma counter_nonneg_next_all:
  "counter_nonneg st name \<Longrightarrow> counter_nonneg (snd (next_all configured names st)) name"
proof (induction names arbitrary: st)
  case Nil
  then show ?case by simp
next
  case (Cons nm names)
  have "counter_nonneg (snd (get_next_sequence configured st nm)) name"
    using Cons.prems by (rule counter_nonneg_step)
  then have "counter_nonneg (snd (next_all configured names (snd (get_next_sequence configured st nm)))) name"
    by (rule Cons.IH)
  then show ?case by (simp only: next_all_Cons_snd)
qed

lemma returned_for_increasing:
  "counter_nonneg st name \<Longrightarrow>
   sorted_wrt (<) (returned_for name names (fst (next_all configured names st))) \<and>
   (\<forall>n \<in> set (returned_for name names (fst (next_all configured names st))).
      counter_int st name < n \<and> n \<le> counter_int (snd (next_all configured names st)) name)"
proof (induction names arbitrary: st)
  case Nil
  show ?case by simp
next
  case (Cons nm names)
  define r where "r = fst (get_next_sequence configured st nm)"
  define st1 where "st1 = snd (get_next_sequence configured st nm)"
  define rs where "rs = fst (next_all configured names st1)"
  define st2 where "st2 = snd (next_all configured names st1)"
  have g: "get_next_sequence configured st nm = (r, st1)" by (simp add: r_def st1_def)
  have f: "fst (next_all configured (nm # names) st) = r # rs"
    by (simp only: next_all_Cons_fst r_def rs_def st1_def)
  have s: "snd (next_all configured (nm # names) st) = st2"
    by (simp only: next_all_Cons_snd st2_def st1_def)
  have nn: "counter_nonneg st1 name"
    using counter_nonneg_step [OF Cons.prems, of configured nm] by (simp add: st1_def)
  have le: "counter_int st name \<le> counter_int st1 name"
    using counter_int_step [of st name configured nm] by (simp add: st1_def)
  have le2: "counter_int st1 name \<le> counter_int st2 name"
    using counter_int_next_all [of st1 name configured names] by (simp add: st2_def)
  have ih: "sorted_wrt (<) (returned_for name names rs)"
    "\<forall>n \<in> set (returned_for name names rs). counter_int st1 name < n \<and> n \<le> counter_int st2 name"
    using Cons.IH [OF nn] by (simp_all add: rs_def st2_def)
  show ?case
  proof (cases r)
    case (Inl x)
    then show ?thesis unfolding f s using ih le by auto
  next
    case (Inr k)
    show ?thesis
    proof (cases "nm = name")
      case False
      then show ?thesis unfolding f s using ih le Inr by auto
    next
      case True
      have "k = counter_int st name + 1" "stored_value st1 name = Some (BInt k)"
        using get_next_sequence_nonneg [of st name configured k st1] Cons.prems g Inr True by simp_all
      then have "counter_int st name < k" "counter_int st1 name = k"
        by (simp_all add: counter_int_def)
      then show ?thesis unfolding f s using ih le2 Inr True by auto
    qed
  qed
qed

lemma fresh_calls:
  "next_all True [''coupon'', ''other'', ''coupon'', ''coupon''] fresh_store =
     ([Inr 1, Inr 1, Inr 2, Inr 3],
      \<lparr>counters = [''coupon'' \<mapsto> [''value'' \<mapsto> BInt 3], ''other'' \<mapsto> [''value'' \<mapsto> BInt 1]],
       collections = (\<lambda>_. [])\<rparr>)"
  by (simp add: fresh_store_def get_next_sequence_def find_one_and_update_def inc_field_def
      returned_value_def dict_get_def py_or_def fun_upd_twist)



text \<open>
  C2: the first call of \<^verbatim>\<open>_get_next_sequence\<close> on a sequence name that has no counter
  document yet succeeds and returns exactly 1 (not 0, not an error, not an empty value).
\<close>

theorem first_call_returns_one:
  "counters st name = None \<Longrightarrow> fst (get_next_sequence True st name) = Inr 1"
  by (simp add: get_next_sequence_unused)

theorem first_call_returns_one_witness:
  "counters fresh_store ''coupon'' = None \<and>
   fst (get_next_sequence True fresh_store ''coupon'') = Inr 1"
  using first_call_returns_one [of fresh_store "''coupon''"]
  by (simp add: fresh_store_def)

section \<open>Properties of the decimal digits\<close>

lemma digits_small: "n < 10 \<Longrightarrow> digits n = [digit_char n]"
  by (simp add: digits.simps)

lemma digits_step: "10 \<le> n \<Longrightarrow> digits n = digits (n div 10) @ [digit_char (n mod 10)]"
  by (subst digits.simps) simp

lemma digit_char_cases:
  assumes "(d::nat) < 10"
  shows "d \<in> {0, 1, 2, 3, 4, 5, 6, 7, 8, 9}"
  using assms by auto

lemma of_char_digit_char: "d < 10 \<Longrightarrow> (of_char (digit_char d) :: nat) = 48 + d"
  using digit_char_cases [of d] by (auto simp: digit_char_def)

lemma digit_char_in: "d < 10 \<Longrightarrow> digit_char d \<in> set ''0123456789''"
  using digit_char_cases [of d] by (auto simp: digit_char_def)

lemma decimal_value_snoc: "decimal_value (s @ [c]) = 10 * decimal_value s + (of_char c - 48)"
  by (simp add: decimal_value_def)

lemma decimal_value_digits: "decimal_value (digits n) = n"
proof (induction n rule: digits.induct)
  case (1 n)
  show ?case
  proof (cases "n < 10")
    case True
    then show ?thesis by (simp add: digits_small decimal_value_def of_char_digit_char)
  next
    case False
    then have "decimal_value (digits (n div 10)) = n div 10" using 1 by simp
    with False show ?thesis
      by (simp add: digits_step decimal_value_snoc of_char_digit_char)
  qed
qed

lemma set_digits: "set (digits n) \<subseteq> set ''0123456789''"
proof (induction n rule: digits.induct)
  case (1 n)
  show ?case
  proof (cases "n < 10")
    case True
    then show ?thesis using digit_char_in [of n] by (simp add: digits_small)
  next
    case False
    then have "set (digits (n div 10)) \<subseteq> set ''0123456789''" using 1 by simp
    moreover have "digit_char (n mod 10) \<in> set ''0123456789''" by (rule digit_char_in) simp
    ultimately show ?thesis using False by (simp add: digits_step)
  qed
qed

lemma length_digits_le: "0 < k \<Longrightarrow> length (digits n) \<le> k \<longleftrightarrow> n < 10 ^ k"
proof (induction n arbitrary: k rule: digits.induct)
  case (1 n)
  show ?case
  proof (cases "n < 10")
    case True
    have "(10::nat) ^ 1 \<le> 10 ^ k" using 1(2) by (intro power_increasing) auto
    with True show ?thesis using 1(2) by (simp add: digits_small)
  next
    case False
    show ?thesis
    proof (cases k)
      case 0
      with 1(2) show ?thesis by simp
    next
      case (Suc j)
      show ?thesis
      proof (cases "j = 0")
        case True
        have "0 < length (digits (n div 10))" by (subst digits.simps) simp
        with False True Suc show ?thesis by (simp add: digits_step)
      next
        case j: False
        then have "length (digits (n div 10)) \<le> j \<longleftrightarrow> n div 10 < 10 ^ j"
          using 1(1) [of j] False by simp
        moreover have "n div 10 < 10 ^ j \<longleftrightarrow> n < 10 ^ Suc j"
          by (simp add: div_less_iff_less_mult mult.commute)
        ultimately show ?thesis using False Suc by (simp add: digits_step)
      qed
    qed
  qed
qed

lemma decimal_value_zeros: "decimal_value (replicate k (CHR ''0'') @ s) = decimal_value s"
  by (induction k) (simp_all add: decimal_value_def)

lemma format_06d_nonneg:
  "0 \<le> n \<Longrightarrow> format_06d n = replicate (6 - length (digits (nat n))) (CHR ''0'') @ digits (nat n)"
  by (simp add: format_06d_def Let_def)

lemma format_06d_value: "0 \<le> n \<Longrightarrow> decimal_value (format_06d n) = nat n"
  by (simp add: format_06d_nonneg decimal_value_zeros decimal_value_digits)

lemma format_06d_chars: "0 \<le> n \<Longrightarrow> set (format_06d n) \<subseteq> set ''0123456789''"
  using set_digits [of "nat n"] by (auto simp: format_06d_nonneg)

lemma format_06d_length: "0 \<le> n \<Longrightarrow> length (format_06d n) = max 6 (length (digits (nat n)))"
  by (simp add: format_06d_nonneg)

lemma format_06d_six: "0 \<le> n \<Longrightarrow> n < 1000000 \<Longrightarrow> length (format_06d n) = 6"
proof -
  assume n: "0 \<le> n" "n < 1000000"
  then have "nat n < 10 ^ 6" by simp
  then have "length (digits (nat n)) \<le> 6" using length_digits_le [of 6 "nat n"] by simp
  then show ?thesis using n by (simp add: format_06d_length)
qed

lemma format_06d_wide: "1000000 \<le> n \<Longrightarrow> format_06d n = digits (nat n)"
proof -
  assume n: "1000000 \<le> n"
  then have "\<not> nat n < 10 ^ 6" by simp
  then have "\<not> length (digits (nat n)) \<le> 6" using length_digits_le [of 6 "nat n"] by simp
  then show ?thesis using n by (simp add: format_06d_nonneg)
qed

lemma format_seven: "COUPON_PREFIX @ format_06d 7 = ''WBAU10DIC-000007''"
  by (simp add: COUPON_PREFIX_def format_06d_def digits_small digit_char_def eval_nat_numeral)

lemma format_million: "COUPON_PREFIX @ format_06d 1000000 = ''WBAU10DIC-1000000''"
  by (simp add: COUPON_PREFIX_def format_06d_def digits_small digits_step digit_char_def)

section \<open>Properties of a request\<close>

lemma generate_coupon_insert_fails:
  assumes "get_next_sequence (db_configured e) st ''coupon'' = (Inr n, st1)" and "\<not> insert_ok e"
  shows "generate_coupon e st =
           (Inr (JSONResponse 500 [(''error'', ''PersistenceError'')]), st1,
            [NextSequence ''coupon'', CreateDocument ''coupon'' (Coupon (COUPON_PREFIX @ format_06d n))])"
proof -
  have "db_configured e" using assms(1) get_next_sequence_Inr_configured [of "db_configured e" st "''coupon''" n] by simp
  then show ?thesis using assms by (simp add: generate_coupon_def create_document_def Let_def)
qed

lemma generate_coupon_render_fails:
  assumes "get_next_sequence (db_configured e) st ''coupon'' = (Inr n, st1)" and "insert_ok e"
    and "build_coupon_image e (COUPON_PREFIX @ format_06d n) = Inl x"
  shows "generate_coupon e st =
           (handle_exception x,
            st1\<lparr>collections := (collections st1)(''coupon'' := collections st1 ''coupon'' @ [Coupon (COUPON_PREFIX @ format_06d n)])\<rparr>,
            [NextSequence ''coupon'', CreateDocument ''coupon'' (Coupon (COUPON_PREFIX @ format_06d n)),
             BuildImage (COUPON_PREFIX @ format_06d n)])"
proof -
  have "db_configured e" using assms(1) get_next_sequence_Inr_configured [of "db_configured e" st "''coupon''" n] by simp
  then show ?thesis using assms by (simp add: generate_coupon_def create_document_def Let_def)
qed

lemma generate_coupon_success:
  assumes "get_next_sequence (db_configured e) st ''coupon'' = (Inr n, st1)" and "insert_ok e"
    and "build_coupon_image e (COUPON_PREFIX @ format_06d n) = Inr png"
  shows "generate_coupon e st =
           (Inr (StreamingResponse png ''image/png''
                  [(''Content-Disposition'',
                    ''attachment; filename='' @ ''miabaucoupon_'' @ (COUPON_PREFIX @ format_06d n) @ ''.png''),
                   (''X-Coupon-Code'', COUPON_PREFIX @ format_06d n)]),
            st1\<lparr>collections := (collections st1)(''coupon'' := collections st1 ''coupon'' @ [Coupon (COUPON_PREFIX @ format_06d n)])\<rparr>,
            [NextSequence ''coupon'', CreateDocument ''coupon'' (Coupon (COUPON_PREFIX @ format_06d n)),
             BuildImage (COUPON_PREFIX @ format_06d n)])"
proof -
  have "db_configured e" using assms(1) get_next_sequence_Inr_configured [of "db_configured e" st "''coupon''" n] by simp
  then show ?thesis using assms by (simp add: generate_coupon_def create_document_def Let_def)
qed

lemma generate_coupon_sequencer_fails:
  assumes "get_next_sequence (db_configured e) st ''coupon'' = (Inl x, st1)"
  shows "generate_coupon e st = (handle_exception x, st1, [NextSequence ''coupon''])"
  using assms by (simp add: generate_coupon_def)

lemma is_image_handle_exception: "\<not> is_image (handle_exception x)"
  by (cases x) simp_all

lemma generate_coupon_image_code:
  assumes "fst (get_next_sequence (db_configured e) st ''coupon'') = Inr n"
    and "is_image (fst (generate_coupon e st))"
  shows "response_code (fst (generate_coupon e st)) = Some (COUPON_PREFIX @ format_06d n)"
proof -
  obtain st1 where s: "get_next_sequence (db_configured e) st ''coupon'' = (Inr n, st1)"
    using assms(1) by (cases "get_next_sequence (db_configured e) st ''coupon''") simp
  show ?thesis
  proof (cases "insert_ok e")
    case False
    then show ?thesis using assms(2) generate_coupon_insert_fails [OF s] by simp
  next
    case True
    show ?thesis
    proof (cases "build_coupon_image e (COUPON_PREFIX @ format_06d n)")
      case (Inl x)
      then show ?thesis using assms(2) generate_coupon_render_fails [OF s True] is_image_handle_exception [of x] by simp
    next
      case (Inr png)
      then show ?thesis using generate_coupon_success [OF s True] by simp
    qed
  qed
qed

lemma generate_coupon_events:
  assumes "fst (get_next_sequence (db_configured e) st ''coupon'') = Inr n"
  shows "\<exists>rest. snd (snd (generate_coupon e st)) =
           NextSequence ''coupon'' # CreateDocument ''coupon'' (Coupon (COUPON_PREFIX @ format_06d n)) # rest"
proof -
  obtain st1 where s: "get_next_sequence (db_configured e) st ''coupon'' = (Inr n, st1)"
    using assms(1) by (cases "get_next_sequence (db_configured e) st ''coupon''") simp
  show ?thesis
  proof (cases "insert_ok e")
    case False
    then show ?thesis using generate_coupon_insert_fails [OF s] by simp
  next
    case True
    show ?thesis
    proof (cases "build_coupon_image e (COUPON_PREFIX @ format_06d n)")
      case (Inl x)
      then show ?thesis using generate_coupon_render_fails [OF s True] by simp
    next
      case (Inr png)
      then show ?thesis using generate_coupon_success [OF s True] by simp
    qed
  qed
qed

lemma generate_coupon_when_image:
  assumes "is_image (fst (generate_coupon e st))"
  shows "\<exists>n st1 png. get_next_sequence (db_configured e) st ''coupon'' = (Inr n, st1) \<and> insert_ok e \<and>
           build_coupon_image e (COUPON_PREFIX @ format_06d n) = Inr png"
proof (cases "get_next_sequence (db_configured e) st ''coupon''")
  case (Pair r st1)
  show ?thesis
  proof (cases r)
    case (Inl x)
    then show ?thesis using assms Pair generate_coupon_sequencer_fails [of e st x st1]
        is_image_handle_exception [of x] by simp
  next
    case (Inr n)
    note s = Pair [unfolded Inr]
    show ?thesis
    proof (cases "insert_ok e")
      case False
      then show ?thesis using assms generate_coupon_insert_fails [OF s] by simp
    next
      case True
      show ?thesis
      proof (cases "build_coupon_image e (COUPON_PREFIX @ format_06d n)")
        case (Inl x)
        then show ?thesis using assms generate_coupon_render_fails [OF s True]
            is_image_handle_exception [of x] by simp
      next
        case (Inr png)
        then show ?thesis using s True by simp
      qed
    qed
  qed
qed

lemma generate_coupon_image_step:
  assumes "counter_nonneg st ''coupon''" and "is_image (fst (generate_coupon e st))"
  shows "response_code (fst (generate_coupon e st)) =
           Some (COUPON_PREFIX @ format_06d (counter_int st ''coupon'' + 1))"
    and "stored_value (fst (snd (generate_coupon e st))) ''coupon'' =
           Some (BInt (counter_int st ''coupon'' + 1))"
proof -
  obtain n st1 png where s: "get_next_sequence (db_configured e) st ''coupon'' = (Inr n, st1)"
    and i: "insert_ok e" and r: "build_coupon_image e (COUPON_PREFIX @ format_06d n) = Inr png"
    using generate_coupon_when_image [OF assms(2)] by blast
  have n: "n = counter_int st ''coupon'' + 1" "stored_value st1 ''coupon'' = Some (BInt n)"
    using get_next_sequence_nonneg [OF assms(1) s] by simp_all
  show "response_code (fst (generate_coupon e st)) =
           Some (COUPON_PREFIX @ format_06d (counter_int st ''coupon'' + 1))"
    using generate_coupon_success [OF s i r] n by simp
  show "stored_value (fst (snd (generate_coupon e st))) ''coupon'' =
           Some (BInt (counter_int st ''coupon'' + 1))"
    using generate_coupon_success [OF s i r] n by (simp add: stored_value_def)
qed

lemma format_one: "COUPON_PREFIX @ format_06d 1 = ''WBAU10DIC-000001''"
  by (simp add: COUPON_PREFIX_def format_06d_def digits_small digit_char_def eval_nat_numeral)

lemma format_two: "COUPON_PREFIX @ format_06d 2 = ''WBAU10DIC-000002''"
  by (simp add: COUPON_PREFIX_def format_06d_def digits_small digit_char_def eval_nat_numeral)

lemma format_three: "COUPON_PREFIX @ format_06d 3 = ''WBAU10DIC-000003''"
  by (simp add: COUPON_PREFIX_def format_06d_def digits_small digit_char_def eval_nat_numeral)

lemmas eval_defs = generate_coupon_def working_env_def fresh_store_def get_next_sequence_def
      find_one_and_update_def inc_field_def returned_value_def dict_get_def py_or_def
      create_document_def build_coupon_image_def COUPON_PREFIX_def format_06d_def digits_small
      digit_char_def eval_nat_numeral Let_def

lemma three_working:
  "fst (issue_all [working_env, working_env, working_env] fresh_store) =
     [Inr (StreamingResponse (map of_char ''WBAU10DIC-000001'') ''image/png''
        [(''Content-Disposition'', ''attachment; filename=miabaucoupon_WBAU10DIC-000001.png''),
         (''X-Coupon-Code'', ''WBAU10DIC-000001'')]),
      Inr (StreamingResponse (map of_char ''WBAU10DIC-000002'') ''image/png''
        [(''Content-Disposition'', ''attachment; filename=miabaucoupon_WBAU10DIC-000002.png''),
         (''X-Coupon-Code'', ''WBAU10DIC-000002'')]),
      Inr (StreamingResponse (map of_char ''WBAU10DIC-000003'') ''image/png''
        [(''Content-Disposition'', ''attachment; filename=miabaucoupon_WBAU10DIC-000003.png''),
         (''X-Coupon-Code'', ''WBAU10DIC-000003'')])]"
  by (simp add: eval_defs)

lemma generate_coupon_cases [case_names sequencer_fails insert_fails render_fails success]:
  obtains x st1 where "get_next_sequence (db_configured e) st ''coupon'' = (Inl x, st1)"
      and "generate_coupon e st = (handle_exception x, st1, [NextSequence ''coupon''])"
  | n st1 where "get_next_sequence (db_configured e) st ''coupon'' = (Inr n, st1)"
      and "\<not> insert_ok e"
      and "generate_coupon e st =
           (Inr (JSONResponse 500 [(''error'', ''PersistenceError'')]), st1,
            [NextSequence ''coupon'', CreateDocument ''coupon'' (Coupon (COUPON_PREFIX @ format_06d n))])"
  | n st1 x where "get_next_sequence (db_configured e) st ''coupon'' = (Inr n, st1)"
      and "insert_ok e"
      and "build_coupon_image e (COUPON_PREFIX @ format_06d n) = Inl x"
      and "generate_coupon e st =
           (handle_exception x,
            st1\<lparr>collections := (collections st1)(''coupon'' := collections st1 ''coupon'' @ [Coupon (COUPON_PREFIX @ format_06d n)])\<rparr>,
            [NextSequence ''coupon'', CreateDocument ''coupon'' (Coupon (COUPON_PREFIX @ format_06d n)),
             BuildImage (COUPON_PREFIX @ format_06d n)])"
  | n st1 png where "get_next_sequence (db_configured e) st ''coupon'' = (Inr n, st1)"
      and "insert_ok e"
      and "build_coupon_image e (COUPON_PREFIX @ format_06d n) = Inr png"
      and "generate_coupon e st =
           (Inr (StreamingResponse png ''image/png''
                  [(''Content-Disposition'',
                    ''attachment; filename='' @ ''miabaucoupon_'' @ (COUPON_PREFIX @ format_06d n) @ ''.png''),
                   (''X-Coupon-Code'', COUPON_PREFIX @ format_06d n)]),
            st1\<lparr>collections := (collections st1)(''coupon'' := collections st1 ''coupon'' @ [Coupon (COUPON_PREFIX @ format_06d n)])\<rparr>,
            [NextSequence ''coupon'', CreateDocument ''coupon'' (Coupon (COUPON_PREFIX @ format_06d n)),
             BuildImage (COUPON_PREFIX @ format_06d n)])"
proof (cases "get_next_sequence (db_configured e) st ''coupon''")
  case (Pair r st1)
  show ?thesis
  proof (cases r)
    case (Inl x)
    then show ?thesis using Pair generate_coupon_sequencer_fails [of e st x st1] that(1) by simp
  next
    case (Inr n)
    note s = Pair [unfolded Inr]
    show ?thesis
    proof (cases "insert_ok e")
      case False
      then show ?thesis using s generate_coupon_insert_fails [OF s] that(2) by simp
    next
      case True
      show ?thesis
      proof (cases "build_coupon_image e (COUPON_PREFIX @ format_06d n)")
        case (Inl x)
        then show ?thesis using s True generate_coupon_render_fails [OF s True] that(3) by simp
      next
        case (Inr png)
        then show ?thesis using s True generate_coupon_success [OF s True] that(4) by simp
      qed
    qed
  qed
qed


lemma get_next_sequence_collections_eq:
  "get_next_sequence configured st name = (r, st1) \<Longrightarrow> collections st1 = collections st"
  using get_next_sequence_collections [of configured st name] by simp



lemma used_store_next:
  "get_next_sequence True used_store ''coupon'' =
     (Inr 3, \<lparr>counters = [''coupon'' \<mapsto> [''value'' \<mapsto> BInt 3]],
              collections = (\<lambda>_. [])(''coupon'' := [Coupon ''WBAU10DIC-000001'', Coupon ''WBAU10DIC-000002''])\<rparr>)"
  by (simp add: used_store_def get_next_sequence_def find_one_and_update_def inc_field_def
      returned_value_def dict_get_def py_or_def)


lemma failing_insert_used:
  "get_next_sequence (db_configured failing_insert_env) used_store ''coupon'' =
     (Inr 3, \<lparr>counters = [''coupon'' \<mapsto> [''value'' \<mapsto> BInt 3]],
              collections = (\<lambda>_. [])(''coupon'' := [Coupon ''WBAU10DIC-000001'', Coupon ''WBAU10DIC-000002''])\<rparr>) \<and>
   \<not> insert_ok failing_insert_env"
  by (simp add: failing_insert_env_def working_env_def used_store_next)

lemma generate_coupon_counters:
  "counters (fst (snd (generate_coupon e st))) =
   counters (snd (get_next_sequence (db_configured e) st ''coupon''))"
  by (cases e st rule: generate_coupon_cases) simp_all





lemma working_fresh:
  "generate_coupon working_env fresh_store =
     (Inr (StreamingResponse (map of_char ''WBAU10DIC-000001'') ''image/png''
        [(''Content-Disposition'', ''attachment; filename=miabaucoupon_WBAU10DIC-000001.png''),
         (''X-Coupon-Code'', ''WBAU10DIC-000001'')]),
      \<lparr>counters = [''coupon'' \<mapsto> [''value'' \<mapsto> BInt 1]],
       collections = (\<lambda>_. [])(''coupon'' := [Coupon ''WBAU10DIC-000001''])\<rparr>,
      [NextSequence ''coupon'', CreateDocument ''coupon'' (Coupon ''WBAU10DIC-000001''),
       BuildImage ''WBAU10DIC-000001''])"
  by (simp add: generate_coupon_def working_env_def fresh_store_def get_next_sequence_def
      find_one_and_update_def inc_field_def returned_value_def dict_get_def py_or_def
      create_document_def build_coupon_image_def COUPON_PREFIX_def format_06d_def digits_small
      digit_char_def eval_nat_numeral Let_def)

section \<open>The claims about the code's format and the unconfigured store\<close>

text \<open>
  C3: in every request in which the sequencer returns the integer \<open>n\<close>, the code handed
  to the insert, and exposed in the header of the image response, is the prefix
  \<^verbatim>\<open>WBAU10DIC-\<close> followed by \<^verbatim>\<open>06d\<close> of \<open>n\<close>. For \<open>n \<ge> 0\<close> that is the decimal digits of
  \<open>n\<close> with zeros in front up to six characters: a string of digits that denotes \<open>n\<close>,
  six characters long below one million and the bare digits from one million on, so
  the padding widens and never truncates. For 7 the code is \<^verbatim>\<open>WBAU10DIC-000007\<close>, for
  1000000 it is \<^verbatim>\<open>WBAU10DIC-1000000\<close>.
\<close>

theorem coupon_code_format:
  "(fst (get_next_sequence (db_configured e) st ''coupon'') = Inr n \<longrightarrow>
      (\<exists>rest. snd (snd (generate_coupon e st)) =
         NextSequence ''coupon'' # CreateDocument ''coupon'' (Coupon (COUPON_PREFIX @ format_06d n)) # rest) \<and>
      (is_image (fst (generate_coupon e st)) \<longrightarrow>
         response_code (fst (generate_coupon e st)) = Some (COUPON_PREFIX @ format_06d n))) \<and>
   (0 \<le> n \<longrightarrow>
      format_06d n = replicate (6 - length (digits (nat n))) (CHR ''0'') @ digits (nat n) \<and>
      decimal_value (format_06d n) = nat n \<and>
      set (format_06d n) \<subseteq> set ''0123456789'' \<and>
      length (format_06d n) = max 6 (length (digits (nat n)))) \<and>
   (0 \<le> n \<and> n < 1000000 \<longrightarrow> length (format_06d n) = 6) \<and>
   (1000000 \<le> n \<longrightarrow> format_06d n = digits (nat n)) \<and>
   COUPON_PREFIX = ''WBAU10DIC-'' \<and>
   COUPON_PREFIX @ format_06d 7 = ''WBAU10DIC-000007'' \<and>
   COUPON_PREFIX @ format_06d 1000000 = ''WBAU10DIC-1000000''"
  using generate_coupon_events [of e st n] generate_coupon_image_code [of e st n]
    format_06d_nonneg [of n] format_06d_value [of n] format_06d_chars [of n]
    format_06d_length [of n] format_06d_six [of n] format_06d_wide [of n]
    format_seven format_million
  by (simp add: COUPON_PREFIX_def)

theorem coupon_code_format_witness:
  "fst (get_next_sequence (db_configured working_env) fresh_store ''coupon'') = Inr 1 \<and>
   is_image (fst (generate_coupon working_env fresh_store)) \<and>
   response_code (fst (generate_coupon working_env fresh_store)) = Some (COUPON_PREFIX @ format_06d 1) \<and>
   COUPON_PREFIX @ format_06d 1 = ''WBAU10DIC-000001'' \<and>
   length (format_06d 1) = 6 \<and>
   format_06d 1000000 = digits (nat 1000000)"
proof -
  have a: "fst (get_next_sequence (db_configured working_env) fresh_store ''coupon'') = Inr 1"
    by (simp add: working_env_def fresh_store_def get_next_sequence_unused)
  have b: "is_image (fst (generate_coupon working_env fresh_store))"
    by (simp add: working_fresh)
  have c: "COUPON_PREFIX @ format_06d 1 = ''WBAU10DIC-000001''"
    by (simp add: COUPON_PREFIX_def format_06d_def digits_small digit_char_def eval_nat_numeral)
  have h: "(0::int) \<le> 1 \<and> (1::int) < 1000000" and h': "(1000000::int) \<le> 1000000"
    by simp_all
  have d: "response_code (fst (generate_coupon working_env fresh_store)) = Some (COUPON_PREFIX @ format_06d 1)"
    using coupon_code_format [of working_env fresh_store 1] a b by blast
  have e: "length (format_06d 1) = 6"
    using coupon_code_format [of working_env fresh_store 1] h by blast
  have f: "format_06d 1000000 = digits (nat 1000000)"
    using coupon_code_format [of working_env fresh_store 1000000] h' by blast
  show ?thesis
    using a b c d e f by blast
qed

text \<open>
  C8: when no store is configured, \<^verbatim>\<open>_get_next_sequence\<close> raises the HTTP exception
  \<^verbatim>\<open>500 Database not configured\<close> and so does the request, which makes no other call:
  the store after it, counters and coupon collection, is the store before it.
\<close>

theorem unconfigured_store_fails_unchanged:
  "\<not> db_configured e \<Longrightarrow>
   get_next_sequence (db_configured e) st name =
     (Inl (HTTPException 500 ''Database not configured''), st) \<and>
   generate_coupon e st =
     (Inl (HTTPException 500 ''Database not configured''), st, [NextSequence ''coupon''])"
  by (simp add: get_next_sequence_def generate_coupon_def)

theorem unconfigured_store_fails_unchanged_witness:
  "\<not> db_configured unconfigured_env \<and>
   get_next_sequence False used_store ''coupon'' =
     (Inl (HTTPException 500 ''Database not configured''), used_store) \<and>
   generate_coupon unconfigured_env used_store =
     (Inl (HTTPException 500 ''Database not configured''), used_store, [NextSequence ''coupon''])"
  using unconfigured_store_fails_unchanged [of unconfigured_env used_store "''coupon''"]
  by (simp add: unconfigured_env_def working_env_def)

text \<open>
  C10, as amended: a successful call returns the incremented counter, or 1 when that
  is 0. So it returns a number that is at least 1 whenever the counter is absent or
  holds an integer that is at least -1, and the last two lines of the function turn
  a document whose value is 0 or absent into 1.
\<close>

theorem returned_value_at_least_one:
  "(stored_value st name = None \<longrightarrow> fst (get_next_sequence True st name) = Inr 1) \<and>
   (stored_value st name = Some (BInt v) \<longrightarrow>
      fst (get_next_sequence True st name) = Inr (if v + 1 = 0 then 1 else v + 1)) \<and>
   (stored_value st name = Some (BInt v) \<and> - 1 \<le> v \<longrightarrow>
      (\<exists>n. fst (get_next_sequence True st name) = Inr n \<and> 1 \<le> n)) \<and>
   (doc ''value'' = None \<or> doc ''value'' = Some (BInt 0) \<longrightarrow> returned_value doc = Inr 1)"
  using get_next_sequence_stored_int [of st name v] get_next_sequence_stored_none [of st name]
    returned_value_falsy [of doc]
  by auto

theorem returned_value_at_least_one_witness:
  "stored_value fresh_store ''coupon'' = None \<and>
   fst (get_next_sequence True fresh_store ''coupon'') = Inr 1 \<and>
   stored_value used_store ''coupon'' = Some (BInt 2) \<and>
   fst (get_next_sequence True used_store ''coupon'') = Inr 3 \<and>
   returned_value [''value'' \<mapsto> BInt 0] = Inr 1 \<and>
   returned_value Map.empty = Inr 1"
proof -
  have a: "stored_value fresh_store ''coupon'' = None"
    by (simp add: stored_value_def fresh_store_def)
  have b: "stored_value used_store ''coupon'' = Some (BInt 2)"
    by (simp add: stored_value_def used_store_def)
  show ?thesis
    using a b returned_value_at_least_one [of fresh_store "''coupon''" 0 "[''value'' \<mapsto> BInt 0]"]
      returned_value_at_least_one [of used_store "''coupon''" 2 Map.empty]
    by simp
qed

text \<open>
  C10 as stated, for every state of the counter store, fails: on a counter that holds
  -5 the call succeeds and returns -4.
\<close>

theorem negative_counter_counterexample:
  "fst (get_next_sequence True negative_store ''coupon'') = Inr (- 4) \<and> \<not> (1::int) \<le> - 4"
  by (simp add: negative_store_def get_next_sequence_def find_one_and_update_def inc_field_def
      returned_value_def dict_get_def py_or_def)

section \<open>The claims about a run of requests\<close>

text \<open>
  C4: three requests one after the other, starting from a store with no counter
  document for \<^verbatim>\<open>coupon\<close>, each ending in the image response, expose the codes
  \<^verbatim>\<open>WBAU10DIC-000001\<close>, \<^verbatim>\<open>WBAU10DIC-000002\<close>, \<^verbatim>\<open>WBAU10DIC-000003\<close>, in that order.
\<close>

theorem three_issuances_in_order:
  assumes "counters st ''coupon'' = None"
    and "issue_all [e1, e2, e3] st = (rs, st')"
    and "\<forall>r \<in> set rs. is_image r"
  shows "map response_code rs =
           [Some ''WBAU10DIC-000001'', Some ''WBAU10DIC-000002'', Some ''WBAU10DIC-000003'']"
proof -
  obtain r1 st1 ev1 where g1: "generate_coupon e1 st = (r1, st1, ev1)"
    by (cases "generate_coupon e1 st") auto
  obtain r2 st2 ev2 where g2: "generate_coupon e2 st1 = (r2, st2, ev2)"
    by (cases "generate_coupon e2 st1") auto
  obtain r3 st3 ev3 where g3: "generate_coupon e3 st2 = (r3, st3, ev3)"
    by (cases "generate_coupon e3 st2") auto
  have rs: "rs = [r1, r2, r3]" using assms(2) g1 g2 g3 by simp
  then have im: "is_image r1" "is_image r2" "is_image r3" using assms(3) by simp_all
  have s0: "stored_value st ''coupon'' = None" using assms(1) by (simp add: stored_value_def)
  then have n0: "counter_nonneg st ''coupon''" and c0: "counter_int st ''coupon'' = 0"
    by (simp_all add: counter_nonneg_def counter_int_def)
  have a1: "response_code r1 = Some (COUPON_PREFIX @ format_06d 1)"
    and s1: "stored_value st1 ''coupon'' = Some (BInt 1)"
    using generate_coupon_image_step [of st e1] n0 c0 im(1) g1 by simp_all
  have n1: "counter_nonneg st1 ''coupon''" and c1: "counter_int st1 ''coupon'' = 1"
    using s1 by (simp_all add: counter_nonneg_def counter_int_def)
  have a2: "response_code r2 = Some (COUPON_PREFIX @ format_06d 2)"
    and s2: "stored_value st2 ''coupon'' = Some (BInt 2)"
    using generate_coupon_image_step [of st1 e2] n1 c1 im(2) g2 by simp_all
  have n2: "counter_nonneg st2 ''coupon''" and c2: "counter_int st2 ''coupon'' = 2"
    using s2 by (simp_all add: counter_nonneg_def counter_int_def)
  have a3: "response_code r3 = Some (COUPON_PREFIX @ format_06d 3)"
    using generate_coupon_image_step [of st2 e3] n2 c2 im(3) g3 by simp
  show ?thesis using rs a1 a2 a3 by (simp add: format_one format_two format_three)
qed

theorem three_issuances_in_order_witness:
  "counters fresh_store ''coupon'' = None \<and>
   map is_image (fst (issue_all [working_env, working_env, working_env] fresh_store)) =
     [True, True, True] \<and>
   map response_code (fst (issue_all [working_env, working_env, working_env] fresh_store)) =
     [Some ''WBAU10DIC-000001'', Some ''WBAU10DIC-000002'', Some ''WBAU10DIC-000003'']"
proof -
  have a: "counters fresh_store ''coupon'' = None" by (simp add: fresh_store_def)
  have b: "\<forall>r \<in> set (fst (issue_all [working_env, working_env, working_env] fresh_store)). is_image r"
    unfolding three_working by simp
  have b': "map is_image (fst (issue_all [working_env, working_env, working_env] fresh_store)) =
     [True, True, True]"
    unfolding three_working by simp
  have c: "issue_all [working_env, working_env, working_env] fresh_store =
      (fst (issue_all [working_env, working_env, working_env] fresh_store),
       snd (issue_all [working_env, working_env, working_env] fresh_store))" by simp
  show ?thesis using a b' three_issuances_in_order [OF a c b] by blast
qed

section \<open>The claims about persistence and rendering\<close>




text \<open>
  C6: when the insert fails after the sequencer has returned a value, the request ends
  in the JSON error response with status 500, the image builder is never called, and
  the coupon collection is as before. A request that ends in the image response is
  one whose insert succeeded, and the record of the code it exposes is in the
  collection.
\<close>

theorem persistence_failure_no_image:
  "(get_next_sequence (db_configured e) st ''coupon'' = (Inr n, st1) \<and> \<not> insert_ok e \<longrightarrow>
      generate_coupon e st =
        (Inr (JSONResponse 500 [(''error'', ''PersistenceError'')]), st1,
         [NextSequence ''coupon'', CreateDocument ''coupon'' (Coupon (COUPON_PREFIX @ format_06d n))]) \<and>
      \<not> is_image (fst (generate_coupon e st)) \<and>
      (\<forall>c. BuildImage c \<notin> set (snd (snd (generate_coupon e st)))) \<and>
      collections (fst (snd (generate_coupon e st))) = collections st) \<and>
   (is_image (fst (generate_coupon e st)) \<longrightarrow>
      insert_ok e \<and>
      (\<exists>c. response_code (fst (generate_coupon e st)) = Some c \<and>
           Coupon c \<in> set (collections (fst (snd (generate_coupon e st))) ''coupon'')))"
proof (intro conjI impI)
  assume a: "get_next_sequence (db_configured e) st ''coupon'' = (Inr n, st1) \<and> \<not> insert_ok e"
  then have g: "generate_coupon e st =
        (Inr (JSONResponse 500 [(''error'', ''PersistenceError'')]), st1,
         [NextSequence ''coupon'', CreateDocument ''coupon'' (Coupon (COUPON_PREFIX @ format_06d n))])"
    using generate_coupon_insert_fails [of e st n st1] by simp
  have col: "collections st1 = collections st"
    using a get_next_sequence_collections_eq [of "db_configured e" st "''coupon''" "Inr n" st1] by simp
  show "generate_coupon e st =
        (Inr (JSONResponse 500 [(''error'', ''PersistenceError'')]), st1,
         [NextSequence ''coupon'', CreateDocument ''coupon'' (Coupon (COUPON_PREFIX @ format_06d n))])"
    by (rule g)
  show "\<not> is_image (fst (generate_coupon e st))" using g by simp
  show "\<forall>c. BuildImage c \<notin> set (snd (snd (generate_coupon e st)))" using g by simp
  show "collections (fst (snd (generate_coupon e st))) = collections st" using g col by simp
next
  assume im: "is_image (fst (generate_coupon e st))"
  then obtain n st1 png where s: "get_next_sequence (db_configured e) st ''coupon'' = (Inr n, st1)"
    and i: "insert_ok e" and r: "build_coupon_image e (COUPON_PREFIX @ format_06d n) = Inr png"
    using generate_coupon_when_image [of e st] by blast
  show "insert_ok e" by (rule i)
  show "\<exists>c. response_code (fst (generate_coupon e st)) = Some c \<and>
           Coupon c \<in> set (collections (fst (snd (generate_coupon e st))) ''coupon'')"
    using generate_coupon_success [OF s i r] by simp
qed

theorem persistence_failure_no_image_witness:
  "fst (get_next_sequence (db_configured failing_insert_env) used_store ''coupon'') = Inr 3 \<and>
   fst (generate_coupon failing_insert_env used_store) =
     Inr (JSONResponse 500 [(''error'', ''PersistenceError'')]) \<and>
   snd (snd (generate_coupon failing_insert_env used_store)) =
     [NextSequence ''coupon'', CreateDocument ''coupon'' (Coupon ''WBAU10DIC-000003'')] \<and>
   collections (fst (snd (generate_coupon failing_insert_env used_store))) = collections used_store \<and>
   is_image (fst (generate_coupon working_env fresh_store)) \<and>
   insert_ok working_env \<and>
   response_code (fst (generate_coupon working_env fresh_store)) = Some ''WBAU10DIC-000001'' \<and>
   Coupon ''WBAU10DIC-000001'' \<in> set (collections (fst (snd (generate_coupon working_env fresh_store))) ''coupon'')"
proof -
  let ?st1 = "\<lparr>counters = [''coupon'' \<mapsto> [''value'' \<mapsto> BInt 3]],
              collections = (\<lambda>_. [])(''coupon'' := [Coupon ''WBAU10DIC-000001'', Coupon ''WBAU10DIC-000002''])\<rparr>"
  note t = persistence_failure_no_image [of failing_insert_env used_store 3 ?st1]
  have a: "generate_coupon failing_insert_env used_store =
        (Inr (JSONResponse 500 [(''error'', ''PersistenceError'')]), ?st1,
         [NextSequence ''coupon'', CreateDocument ''coupon'' (Coupon (COUPON_PREFIX @ format_06d 3))])"
    using t failing_insert_used by blast
  have b: "collections (fst (snd (generate_coupon failing_insert_env used_store))) = collections used_store"
    using t failing_insert_used by blast
  have im: "is_image (fst (generate_coupon working_env fresh_store))" by (simp add: working_fresh)
  have c: "insert_ok working_env"
    using persistence_failure_no_image [of working_env fresh_store 0 fresh_store] im by blast
  show ?thesis using a b c failing_insert_used by (simp add: format_three working_fresh)
qed

text \<open>
  C9: a request that ends in the image response has appended to the coupon collection
  the record with the exposed code, channel \<^verbatim>\<open>whatsapp\<close> and redeemed false; and every
  record a request hands to the insert goes to the collection \<^verbatim>\<open>coupon\<close>, has these
  defaults, and has the code formed from the sequencer's value.
\<close>

theorem coupon_record_defaults:
  "(is_image (fst (generate_coupon e st)) \<longrightarrow>
      (\<exists>c. response_code (fst (generate_coupon e st)) = Some c \<and>
           collections (fst (snd (generate_coupon e st))) ''coupon'' =
             collections st ''coupon'' @ [\<lparr>code = c, channel = Some ''whatsapp'', redeemed = False\<rparr>])) \<and>
   (CreateDocument nm d \<in> set (snd (snd (generate_coupon e st))) \<longrightarrow>
      nm = ''coupon'' \<and> channel d = Some ''whatsapp'' \<and> redeemed d = False \<and>
      (\<exists>n. fst (get_next_sequence (db_configured e) st ''coupon'') = Inr n \<and>
           code d = COUPON_PREFIX @ format_06d n))"
proof (intro conjI impI)
  assume im: "is_image (fst (generate_coupon e st))"
  then obtain n st1 png where s: "get_next_sequence (db_configured e) st ''coupon'' = (Inr n, st1)"
    and i: "insert_ok e" and r: "build_coupon_image e (COUPON_PREFIX @ format_06d n) = Inr png"
    using generate_coupon_when_image [of e st] by blast
  show "\<exists>c. response_code (fst (generate_coupon e st)) = Some c \<and>
           collections (fst (snd (generate_coupon e st))) ''coupon'' =
             collections st ''coupon'' @ [\<lparr>code = c, channel = Some ''whatsapp'', redeemed = False\<rparr>]"
    using generate_coupon_success [OF s i r] get_next_sequence_collections_eq [OF s]
    by (simp add: Coupon_def)
next
  assume ev: "CreateDocument nm d \<in> set (snd (snd (generate_coupon e st)))"
  have "nm = ''coupon'' \<and> channel d = Some ''whatsapp'' \<and> redeemed d = False \<and>
      (\<exists>n. fst (get_next_sequence (db_configured e) st ''coupon'') = Inr n \<and>
           code d = COUPON_PREFIX @ format_06d n)"
  proof (cases e st rule: generate_coupon_cases)
    case (sequencer_fails x st1)
    then show ?thesis using ev by simp
  next
    case (insert_fails n st1)
    then show ?thesis using ev by (auto simp: Coupon_def)
  next
    case (render_fails n st1 x)
    then show ?thesis using ev by (auto simp: Coupon_def)
  next
    case (success n st1 png)
    then show ?thesis using ev by (auto simp: Coupon_def)
  qed
  then show "nm = ''coupon''" and "channel d = Some ''whatsapp''" and "redeemed d = False"
    and "\<exists>n. fst (get_next_sequence (db_configured e) st ''coupon'') = Inr n \<and>
           code d = COUPON_PREFIX @ format_06d n"
    by simp_all
qed

theorem coupon_record_defaults_witness:
  "is_image (fst (generate_coupon working_env fresh_store)) \<and>
   response_code (fst (generate_coupon working_env fresh_store)) = Some ''WBAU10DIC-000001'' \<and>
   collections (fst (snd (generate_coupon working_env fresh_store))) ''coupon'' =
     [\<lparr>code = ''WBAU10DIC-000001'', channel = Some ''whatsapp'', redeemed = False\<rparr>] \<and>
   CreateDocument ''coupon'' (Coupon ''WBAU10DIC-000001'')
     \<in> set (snd (snd (generate_coupon working_env fresh_store))) \<and>
   channel (Coupon ''WBAU10DIC-000001'') = Some ''whatsapp'' \<and>
   redeemed (Coupon ''WBAU10DIC-000001'') = False"
proof -
  have im: "is_image (fst (generate_coupon working_env fresh_store))" by (simp add: working_fresh)
  have rc: "response_code (fst (generate_coupon working_env fresh_store)) = Some ''WBAU10DIC-000001''"
    by (simp add: working_fresh)
  have ev: "CreateDocument ''coupon'' (Coupon ''WBAU10DIC-000001'')
     \<in> set (snd (snd (generate_coupon working_env fresh_store)))"
    by (simp add: working_fresh)
  have fs: "collections fresh_store ''coupon'' = []" by (simp add: fresh_store_def)
  note t = coupon_record_defaults [of working_env fresh_store "''coupon''" "Coupon ''WBAU10DIC-000001''"]
  have a: "collections (fst (snd (generate_coupon working_env fresh_store))) ''coupon'' =
     [\<lparr>code = ''WBAU10DIC-000001'', channel = Some ''whatsapp'', redeemed = False\<rparr>]"
    using t im rc fs by auto
  have b: "channel (Coupon ''WBAU10DIC-000001'') = Some ''whatsapp'' \<and>
   redeemed (Coupon ''WBAU10DIC-000001'') = False"
    using t ev by blast
  show ?thesis using im rc a ev b by blast
qed

section \<open>Concurrent callers of the sequencer\<close>

lemma tickets_append: "tickets (xs @ ys) = tickets xs @ tickets ys"
  by (simp add: tickets_def)

lemma tickets_Cons: "tickets (p # ps) = ticket p @ tickets ps"
  by (simp add: tickets_def)

lemma tickets_split:
  "i < length ps \<Longrightarrow>
   tickets ps = tickets (take i ps) @ ticket (ps ! i) @ tickets (drop (Suc i) ps)"
  using id_take_nth_drop [of i ps] tickets_append [of "take i ps" "ps ! i # drop (Suc i) ps"]
  by (simp add: tickets_Cons)

lemma tickets_update:
  "i < length ps \<Longrightarrow>
   tickets (ps[i := p]) = tickets (take i ps) @ ticket p @ tickets (drop (Suc i) ps)"
  by (simp add: upd_conv_take_nth_drop tickets_append tickets_Cons)

lemma tickets_update_same:
  "i < length ps \<Longrightarrow> ticket p = ticket (ps ! i) \<Longrightarrow> tickets (ps[i := p]) = tickets ps"
  by (simp add: tickets_update tickets_split [of i ps])

lemma list_all_update: "list_all P ps \<Longrightarrow> P p \<Longrightarrow> list_all P (ps[i := p])"
  using set_update_subset_insert [of ps i p] by (auto simp: list_all_iff)

lemma counter_valid_cases:
  assumes "counter_valid st name"
  obtains "stored_value st name = None" "counter_int st name = 0"
  | v where "stored_value st name = Some (BInt v)" "0 \<le> v" "counter_int st name = v"
  using assms by (auto simp: counter_valid_def counter_int_def split: option.splits bson.splits)

lemma find_one_and_update_valid:
  assumes "counter_valid st name"
  shows "find_one_and_update (counters st) name ''value'' 1 =
           Inr ((case counters st name of None \<Rightarrow> Map.empty | Some d \<Rightarrow> d)
                  (''value'' \<mapsto> BInt (counter_int st name + 1)),
                (counters st)(name \<mapsto>
                  (case counters st name of None \<Rightarrow> Map.empty | Some d \<Rightarrow> d)
                    (''value'' \<mapsto> BInt (counter_int st name + 1))))"
  using assms
  by (auto simp: counter_valid_def counter_int_def stored_value_def find_one_and_update_def
      inc_field_def split: option.splits bson.splits)

lemma callers_inv_step:
  assumes inv: "callers_inv name ps st" and i: "i < length ps"
    and step: "proc_step True name (ps ! i) st = (p, st1)"
  shows "callers_inv name (ps[i := p]) st1"
proof (cases "ps ! i")
  case Ready
  let ?v = "counter_int st name"
  define doc where "doc = (case counters st name of None \<Rightarrow> Map.empty | Some d \<Rightarrow> d)
                  (''value'' \<mapsto> BInt (?v + 1))"
  define cs where "cs = (counters st)(name \<mapsto> doc)"
  have cv: "counter_valid st name" using inv by (simp add: callers_inv_def)
  have f: "find_one_and_update (counters st) name ''value'' 1 = Inr (doc, cs)"
    using find_one_and_update_valid [OF cv] by (simp add: doc_def cs_def)
  have d: "doc ''value'' = Some (BInt (?v + 1))" by (simp add: doc_def)
  have s: "stored_value (st\<lparr>counters := cs\<rparr>) name = Some (BInt (?v + 1))"
    by (simp add: stored_value_def cs_def d)
  have p: "p = Fetched doc" and st1: "st1 = st\<lparr>counters := cs\<rparr>" using step Ready f by simp_all
  have v: "0 \<le> ?v" using inv by (auto simp: callers_inv_def elim: counter_valid_cases)
  have t0: "tickets ps = tickets (take i ps) @ tickets (drop (Suc i) ps)"
    using tickets_split [OF i] Ready by simp
  have t1: "tickets (ps[i := p]) = tickets (take i ps) @ [?v + 1] @ tickets (drop (Suc i) ps)"
    using tickets_update [OF i, of p] p d by simp
  have old: "distinct (tickets ps)" "set (tickets ps) = {1..?v}"
    using inv by (simp_all add: callers_inv_def)
  have new: "?v + 1 \<notin> set (tickets ps)" using old(2) by simp
  have c1: "counter_int st1 name = ?v + 1" using s st1 by (simp add: counter_int_def)
  have "counter_valid st1 name" using s st1 v by (simp add: counter_valid_def)
  moreover have "list_all proc_ok (ps[i := p])"
    using inv p d v by (intro list_all_update) (simp_all add: callers_inv_def)
  moreover have "distinct (tickets (ps[i := p]))"
    using old(1) new unfolding t1 t0 by auto
  moreover have "set (tickets (ps[i := p])) = {1..counter_int st1 name}"
    using old(2) v unfolding t1 t0 c1 by auto
  ultimately show ?thesis by (simp add: callers_inv_def)
next
  case (Fetched doc)
  have ok: "proc_ok (Fetched doc)"
    using inv i Fetched by (auto simp: callers_inv_def list_all_length)
  then obtain v where d: "doc ''value'' = Some (BInt v)" and v: "1 \<le> v"
    by (auto split: option.splits bson.splits)
  have r: "returned_value doc = Inr v"
    using d v by (simp add: returned_value_def dict_get_def py_or_def)
  have p: "p = Done (Inr v)" and st1: "st1 = st" using step Fetched r by simp_all
  have "ticket p = ticket (ps ! i)" using p Fetched d by simp
  then have "tickets (ps[i := p]) = tickets ps" using i by (rule tickets_update_same [rotated])
  moreover have "list_all proc_ok (ps[i := p])"
    using inv p by (intro list_all_update) (simp_all add: callers_inv_def)
  ultimately show ?thesis using inv st1 by (simp add: callers_inv_def)
next
  case (Done r)
  then have "p = ps ! i" "st1 = st" using step by simp_all
  then show ?thesis using inv by simp
qed

lemma callers_inv_run:
  "callers_inv name ps st \<Longrightarrow>
   callers_inv name (fst (run_schedule True name sched (ps, st))) (snd (run_schedule True name sched (ps, st)))"
proof (induction sched arbitrary: ps st)
  case Nil
  then show ?case by simp
next
  case (Cons i sched)
  show ?case
  proof (cases "i < length ps")
    case False
    then show ?thesis using Cons.IH [OF Cons.prems] by simp
  next
    case True
    obtain p st1 where s: "proc_step True name (ps ! i) st = (p, st1)"
      by (cases "proc_step True name (ps ! i) st") auto
    have "callers_inv name (ps[i := p]) st1" using Cons.prems True s by (rule callers_inv_step)
    then show ?thesis using Cons.IH [of "ps[i := p]" st1] True s by simp
  qed
qed

lemma callers_inv_initial:
  "counters st name = None \<Longrightarrow> callers_inv name (replicate N Ready) st"
  by (simp add: callers_inv_def counter_valid_def counter_int_def stored_value_def tickets_def
      list_all_iff)

lemma length_run_schedule:
  "length (fst (run_schedule configured name sched (ps, st))) = length ps"
proof (induction sched arbitrary: ps st)
  case Nil
  show ?case by simp
next
  case (Cons i sched)
  show ?case using Cons.IH by (auto split: prod.splits)
qed

lemma finished_returned: "list_all finished ps \<Longrightarrow> returned ps = tickets ps"
proof (induction ps)
  case Nil
  show ?case by (simp add: returned_def tickets_def)
next
  case (Cons p ps)
  then obtain n where "p = Done (Inr n)" by (cases p rule: finished.cases) auto
  then show ?case using Cons by (simp add: returned_def tickets_def)
qed

lemma finished_length: "list_all finished ps \<Longrightarrow> length (returned ps) = length ps"
proof (induction ps)
  case Nil
  show ?case by (simp add: returned_def)
next
  case (Cons p ps)
  then obtain n where "p = Done (Inr n)" by (cases p rule: finished.cases) auto
  then show ?case using Cons by (simp add: returned_def)
qed

lemma distinct_interval_length:
  assumes "distinct xs" and "set xs = {1..k}" and "0 \<le> k"
  shows "k = int (length xs)"
proof -
  have "card (set xs) = length xs" using assms(1) by (rule distinct_card)
  then show ?thesis using assms(2,3) by simp
qed

lemma callers_inv_finished:
  assumes "callers_inv name ps st" and "list_all finished ps"
  shows "distinct (returned ps) \<and> set (returned ps) = {1..int (length ps)}"
proof -
  have r: "returned ps = tickets ps" "length (returned ps) = length ps"
    using finished_returned [OF assms(2)] finished_length [OF assms(2)] by blast+
  have d: "distinct (returned ps)" and s: "set (returned ps) = {1..counter_int st name}"
    using assms(1) r(1) by (simp_all add: callers_inv_def)
  have "0 \<le> counter_int st name"
    using assms(1) by (auto simp: callers_inv_def elim: counter_valid_cases)
  then have "counter_int st name = int (length ps)"
    using distinct_interval_length [OF d s] r(2) by simp
  then show ?thesis using d s by simp
qed

lemma proc_step_stage:
  assumes "callers_inv name ps st" and "i < length ps"
    and "proc_step True name (ps ! i) st = (p, st1)"
  shows "stage p = min 2 (Suc (stage (ps ! i)))"
proof (cases "ps ! i")
  case Ready
  have "counter_valid st name" using assms(1) by (simp add: callers_inv_def)
  then have "\<exists>doc. p = Fetched doc"
    using assms(3) Ready find_one_and_update_valid [of st name] by auto
  then show ?thesis by (auto simp: Ready)
next
  case (Fetched doc)
  then have "p = Done (returned_value doc)" using assms(3) by simp
  then show ?thesis by (simp add: Fetched)
next
  case (Done r)
  then have "p = Done r" using assms(3) by simp
  then show ?thesis by (simp add: Done)
qed

lemma run_schedule_stage:
  "callers_inv name ps st \<Longrightarrow> j < length ps \<Longrightarrow>
   stage (fst (run_schedule True name sched (ps, st)) ! j) = min 2 (stage (ps ! j) + count_list sched j)"
proof (induction sched arbitrary: ps st)
  case Nil
  then show ?case by (cases "ps ! j") simp_all
next
  case (Cons i sched)
  show ?case
  proof (cases "i < length ps")
    case False
    then have "i \<noteq> j" using Cons.prems(2) by auto
    then show ?thesis using False Cons.IH [OF Cons.prems] by simp
  next
    case True
    obtain p st1 where s: "proc_step True name (ps ! i) st = (p, st1)"
      by (cases "proc_step True name (ps ! i) st") auto
    have inv: "callers_inv name (ps[i := p]) st1" using Cons.prems(1) True s by (rule callers_inv_step)
    have ih: "stage (fst (run_schedule True name sched (ps[i := p], st1)) ! j) =
        min 2 (stage (ps[i := p] ! j) + count_list sched j)"
      using Cons.IH [OF inv] Cons.prems(2) by simp
    have r: "run_schedule True name (i # sched) (ps, st) = run_schedule True name sched (ps[i := p], st1)"
      using True s by simp
    show ?thesis
    proof (cases "i = j")
      case False
      then show ?thesis unfolding r ih by simp
    next
      case eq: True
      have "stage p = min 2 (Suc (stage (ps ! j)))"
        using proc_step_stage [OF Cons.prems(1) True s] eq by simp
      then show ?thesis unfolding r ih using eq Cons.prems(2) by simp
    qed
  qed
qed

lemma stage_two_finished: "proc_ok p \<Longrightarrow> stage p = 2 \<Longrightarrow> finished p"
proof (cases p)
  case (Done r)
  assume "proc_ok p"
  then show ?thesis using Done by (cases r) simp_all
qed simp_all

lemma fair_schedule_finishes:
  assumes inv: "callers_inv name ps st" and fair: "\<forall>i<length ps. 2 \<le> count_list sched i"
  shows "list_all finished (fst (run_schedule True name sched (ps, st)))"
proof -
  let ?qs = "fst (run_schedule True name sched (ps, st))"
  have len: "length ?qs = length ps" by (rule length_run_schedule)
  have inv': "callers_inv name ?qs (snd (run_schedule True name sched (ps, st)))"
    using inv by (rule callers_inv_run)
  have "finished (?qs ! j)" if j: "j < length ?qs" for j
  proof -
    have "stage (?qs ! j) = min 2 (stage (ps ! j) + count_list sched j)"
      using run_schedule_stage [OF inv] j len by simp
    moreover have "2 \<le> count_list sched j" using fair j len by simp
    ultimately have "stage (?qs ! j) = 2" by simp
    moreover have "proc_ok (?qs ! j)" using inv' j by (simp add: callers_inv_def list_all_length)
    ultimately show ?thesis by (rule stage_two_finished [rotated])
  qed
  then show ?thesis by (simp add: list_all_length)
qed

lemma caller_alone:
  "run_schedule configured name [0, 0] ([Ready], st) =
     ([Done (fst (get_next_sequence configured st name))], snd (get_next_sequence configured st name))"
  by (auto simp: get_next_sequence_def split: sum.splits prod.splits)

lemma three_callers:
  "fst (run_schedule True ''coupon'' [2, 0, 0, 1, 2, 1] (replicate 3 Ready, fresh_store)) =
     [Done (Inr 2), Done (Inr 3), Done (Inr 1)]"
  by (simp add: eval_nat_numeral fresh_store_def find_one_and_update_def inc_field_def
      returned_value_def dict_get_def py_or_def)

text \<open>
  C1: \<open>N\<close> concurrent callers of \<^verbatim>\<open>_get_next_sequence\<close> on one sequence name, started
  on a store that has no counter document for it, under any interleaving of their
  steps (the update being one atomic step of the store): when every caller is given
  its two steps, every caller returns a number; and when all have returned, the
  numbers returned are exactly 1, ..., \<open>N\<close>, each once. A caller running alone is
  \<^verbatim>\<open>_get_next_sequence\<close> itself.
\<close>

theorem concurrent_callers_one_to_N:
  assumes "counters st name = None"
    and "run_schedule True name sched (replicate N Ready, st) = (ps, st')"
  shows "((\<forall>i<N. 2 \<le> count_list sched i) \<longrightarrow> list_all finished ps) \<and>
         (list_all finished ps \<longrightarrow>
            distinct (returned ps) \<and> set (returned ps) = {1..int N} \<and> length (returned ps) = N) \<and>
         run_schedule configured name [0, 0] ([Ready], st) =
           ([Done (fst (get_next_sequence configured st name))],
            snd (get_next_sequence configured st name))"
proof (intro conjI impI)
  have init: "callers_inv name (replicate N Ready) st" using assms(1) by (rule callers_inv_initial)
  have len: "length ps = N" using length_run_schedule [of True name sched "replicate N Ready" st] assms(2) by simp
  have inv: "callers_inv name ps st'" using callers_inv_run [OF init, of sched] assms(2) by simp
  show "list_all finished ps" if "\<forall>i<N. 2 \<le> count_list sched i"
    using fair_schedule_finishes [OF init, of sched] that assms(2) by simp
  assume fin: "list_all finished ps"
  show "distinct (returned ps)" and "set (returned ps) = {1..int N}"
    using callers_inv_finished [OF inv fin] len by simp_all
  show "length (returned ps) = N" using finished_length [OF fin] len by simp
next
  show "run_schedule configured name [0, 0] ([Ready], st) =
           ([Done (fst (get_next_sequence configured st name))],
            snd (get_next_sequence configured st name))"
    by (rule caller_alone)
qed

theorem concurrent_callers_one_to_N_witness:
  "counters fresh_store ''coupon'' = None \<and>
   map (count_list [2, 0, 0, 1, 2, 1::nat]) [0, 1, 2] = [2, 2, 2] \<and>
   list_all finished (fst (run_schedule True ''coupon'' [2, 0, 0, 1, 2, 1] (replicate 3 Ready, fresh_store))) \<and>
   returned (fst (run_schedule True ''coupon'' [2, 0, 0, 1, 2, 1] (replicate 3 Ready, fresh_store))) = [2, 3, 1] \<and>
   set (returned (fst (run_schedule True ''coupon'' [2, 0, 0, 1, 2, 1] (replicate 3 Ready, fresh_store)))) = {1..3}"
proof -
  let ?c = "run_schedule True ''coupon'' [2, 0, 0, 1, 2, 1] (replicate 3 Ready, fresh_store)"
  have a: "counters fresh_store ''coupon'' = None" by (simp add: fresh_store_def)
  have b: "?c = (fst ?c, snd ?c)" by simp
  have f: "map (count_list [2, 0, 0, 1, 2, 1::nat]) [0, 1, 2] = [2, 2, 2]" by simp
  have f': "\<forall>i<3. 2 \<le> count_list [2, 0, 0, 1, 2, 1::nat] i"
    by (simp add: eval_nat_numeral less_Suc_eq)
  note t = concurrent_callers_one_to_N [OF a b, of True]
  have c: "list_all finished (fst ?c)" using t f' by blast
  have d: "returned (fst ?c) = [2, 3, 1]" unfolding three_callers by (simp add: returned_def)
  have e: "set (returned (fst ?c)) = {1..int 3}" using t c by blast
  show ?thesis using a f c d e by simp
qed

section \<open>The counter over time\<close>

lemma returned_subset_tickets: "set (returned ps) \<subseteq> set (tickets ps)"
proof (induction ps)
  case Nil
  show ?case by (simp add: returned_def tickets_def)
next
  case (Cons p ps)
  have "set (result_of p) \<subseteq> set (ticket p)"
  proof (cases p)
    case (Done r)
    then show ?thesis by (cases r) simp_all
  qed simp_all
  then show ?case using Cons by (auto simp: returned_def tickets_def)
qed

lemma counter_nonneg_int: "counter_nonneg st name \<Longrightarrow> 0 \<le> counter_int st name"
  by (auto simp: counter_nonneg_def counter_int_def split: option.splits bson.splits)

lemma find_one_and_update_nonneg:
  assumes "counter_nonneg st name"
    and "find_one_and_update (counters st) name ''value'' 1 = Inr (doc, cs)"
  shows "doc ''value'' = Some (BInt (counter_int st name + 1))"
    and "stored_value (st\<lparr>counters := cs\<rparr>) name = Some (BInt (counter_int st name + 1))"
  using assms
  by (auto simp: counter_nonneg_def counter_int_def stored_value_def find_one_and_update_def
      inc_field_def split: option.splits bson.splits)

lemma proc_step_state:
  "snd (proc_step configured name p st) =
     (case p of Ready \<Rightarrow> snd (get_next_sequence configured st name) | _ \<Rightarrow> st)"
  by (cases p) (auto simp: get_next_sequence_def split: sum.splits prod.splits)

lemma counter_int_proc_step:
  "counter_int st name \<le> counter_int (snd (proc_step configured name p st)) name"
proof (cases p)
  case Ready
  have "snd (proc_step configured name p st) = snd (get_next_sequence configured st name)"
    by (simp only: proc_step_state Ready proc.case)
  then show ?thesis using counter_int_step [of st name configured name] by (simp only:)
next
  case (Fetched doc)
  then show ?thesis by simp
next
  case (Done r)
  then show ?thesis by simp
qed

lemma counter_int_run_schedule:
  "counter_int st name \<le> counter_int (snd (run_schedule configured name sched (ps, st))) name"
proof (induction sched arbitrary: ps st)
  case Nil
  show ?case by simp
next
  case (Cons i sched)
  show ?case
  proof (cases "i < length ps")
    case False
    then show ?thesis using Cons.IH by simp
  next
    case True
    obtain p st1 where s: "proc_step configured name (ps ! i) st = (p, st1)"
      by (cases "proc_step configured name (ps ! i) st") auto
    have "counter_int st name \<le> counter_int st1 name"
      using counter_int_proc_step [of st name configured "ps ! i"] s by simp
    also have "\<dots> \<le> counter_int (snd (run_schedule configured name sched (ps[i := p], st1))) name"
      by (rule Cons.IH)
    finally show ?thesis using True s by simp
  qed
qed

lemma update_step_facts:
  assumes b: "callers_bound name ps st" and i: "i < length ps"
    and step: "proc_step configured name (ps ! i) st = (Fetched doc, st1)"
  shows "ps ! i = Ready"
    and "doc ''value'' = Some (BInt (counter_int st name + 1))"
    and "returned_value doc = Inr (counter_int st name + 1)"
    and "counter_int st1 name = counter_int st name + 1"
    and "\<forall>n \<in> set (tickets ps). n < counter_int st name + 1"
proof -
  show r: "ps ! i = Ready" using step by (cases "ps ! i") auto
  have nn: "counter_nonneg st name" using b by (simp add: callers_bound_def)
  have c: configured using step r by (cases configured) auto
  obtain cs where f: "find_one_and_update (counters st) name ''value'' 1 = Inr (doc, cs)"
    and s1: "st1 = st\<lparr>counters := cs\<rparr>"
    using step r c by (auto split: sum.splits prod.splits)
  show d: "doc ''value'' = Some (BInt (counter_int st name + 1))"
    using find_one_and_update_nonneg(1) [OF nn f] .
  have "counter_int st name + 1 \<noteq> 0" using counter_nonneg_int [OF nn] by simp
  then show "returned_value doc = Inr (counter_int st name + 1)"
    using d by (simp add: returned_value_def dict_get_def py_or_def)
  show "counter_int st1 name = counter_int st name + 1"
    using find_one_and_update_nonneg(2) [OF nn f] s1 by (simp add: counter_int_def)
  show "\<forall>n \<in> set (tickets ps). n < counter_int st name + 1"
    using b by (auto simp: callers_bound_def list_all_iff)
qed

lemma return_step_facts:
  assumes b: "callers_bound name ps st" and i: "i < length ps" and f: "ps ! i = Fetched doc"
  shows "\<exists>v. doc ''value'' = Some (BInt v) \<and> 1 \<le> v \<and>
           proc_step configured name (ps ! i) st = (Done (Inr v), st)"
proof -
  have "fetched_ok (Fetched doc)" using b i f by (auto simp: callers_bound_def list_all_length)
  then obtain v where d: "doc ''value'' = Some (BInt v)" and v: "1 \<le> v"
    by (auto split: option.splits bson.splits)
  then have "returned_value doc = Inr v" by (simp add: returned_value_def dict_get_def py_or_def)
  then show ?thesis using d v f by simp
qed

lemma callers_bound_step:
  assumes b: "callers_bound name ps st" and i: "i < length ps"
    and step: "proc_step configured name (ps ! i) st = (p, st1)"
  shows "callers_bound name (ps[i := p]) st1"
proof -
  have nn: "counter_nonneg st name" and ok: "list_all fetched_ok ps"
    and le: "list_all (\<lambda>n. n \<le> counter_int st name) (tickets ps)"
    using b by (simp_all add: callers_bound_def)
  have same: "callers_bound name (ps[i := p]) st1"
    if "ticket p = ticket (ps ! i)" "fetched_ok p" "st1 = st"
  proof -
    have "tickets (ps[i := p]) = tickets ps" using i that(1) by (rule tickets_update_same)
    moreover have "list_all fetched_ok (ps[i := p])" using ok that(2) by (rule list_all_update)
    ultimately show ?thesis using nn le that(3) by (simp add: callers_bound_def)
  qed
  show ?thesis
  proof (cases p)
    case (Fetched doc)
    note s = step [unfolded Fetched]
    have r: "ps ! i = Ready" and d: "doc ''value'' = Some (BInt (counter_int st name + 1))"
      and c1: "counter_int st1 name = counter_int st name + 1"
      using update_step_facts [OF b i s] by simp_all
    have c0: "0 \<le> counter_int st name" using nn by (rule counter_nonneg_int)
    have "snd (proc_step configured name (ps ! i) st) = snd (get_next_sequence configured st name)"
      by (simp only: proc_step_state r proc.case)
    then have "st1 = snd (get_next_sequence configured st name)" using step by simp
    then have nn1: "counter_nonneg st1 name" using counter_nonneg_step [OF nn, of configured name] by simp
    have t0: "tickets ps = tickets (take i ps) @ tickets (drop (Suc i) ps)"
      using tickets_split [OF i] r by simp
    have t1: "tickets (ps[i := p]) =
        tickets (take i ps) @ [counter_int st name + 1] @ tickets (drop (Suc i) ps)"
      using tickets_update [OF i, of p] Fetched d by simp
    have "\<forall>n \<in> set (tickets ps). n \<le> counter_int st name + 1"
      using le by (fastforce simp: list_all_iff)
    then have "list_all (\<lambda>n. n \<le> counter_int st1 name) (tickets (ps[i := p]))"
      unfolding t1 t0 c1 by (simp add: list_all_iff)
    moreover have "list_all fetched_ok (ps[i := p])"
      using ok by (rule list_all_update) (simp add: Fetched d c0)
    ultimately show ?thesis using nn1 by (simp add: callers_bound_def)
  next
    case Ready
    then show ?thesis using step by (cases "ps ! i") (auto split: sum.splits prod.splits if_splits)
  next
    case (Done r)
    show ?thesis
    proof (cases "ps ! i")
      case Ready
      then have "ticket p = ticket (ps ! i) \<and> fetched_ok p \<and> st1 = st"
        using step Done by (auto split: sum.splits prod.splits if_splits)
      then show ?thesis using same by blast
    next
      case (Fetched doc)
      obtain v where "doc ''value'' = Some (BInt v)"
        and "proc_step configured name (ps ! i) st = (Done (Inr v), st)"
        using return_step_facts [OF b i Fetched, of configured] by blast
      then have "ticket p = ticket (ps ! i) \<and> fetched_ok p \<and> st1 = st"
        using step Fetched by auto
      then show ?thesis using same by blast
    next
      case (Done r')
      then have "p = Done r'" "st1 = st" using step by simp_all
      then have "ticket p = ticket (ps ! i) \<and> fetched_ok p \<and> st1 = st"
        by (simp add: Done)
      then show ?thesis using same by blast
    qed
  qed
qed

lemma callers_bound_run:
  "callers_bound name ps st \<Longrightarrow>
   callers_bound name (fst (run_schedule configured name sched (ps, st)))
     (snd (run_schedule configured name sched (ps, st)))"
proof (induction sched arbitrary: ps st)
  case Nil
  then show ?case by simp
next
  case (Cons i sched)
  show ?case
  proof (cases "i < length ps")
    case False
    then show ?thesis using Cons.IH [OF Cons.prems] by simp
  next
    case True
    obtain p st1 where s: "proc_step configured name (ps ! i) st = (p, st1)"
      by (cases "proc_step configured name (ps ! i) st") auto
    have "callers_bound name (ps[i := p]) st1" using Cons.prems True s by (rule callers_bound_step)
    then show ?thesis using Cons.IH [of "ps[i := p]" st1] True s by simp
  qed
qed

lemma callers_bound_initial:
  "counter_nonneg st name \<Longrightarrow> callers_bound name (replicate N Ready) st"
  by (simp add: callers_bound_def tickets_def list_all_iff)

lemma update_hands_greater:
  assumes nn: "counter_nonneg st name"
    and run: "run_schedule configured name sched (replicate N Ready, st) = (ps, st')"
    and i: "i < length ps"
  shows "\<forall>doc st1. proc_step configured name (ps ! i) st' = (Fetched doc, st1) \<longrightarrow>
           returned_value doc = Inr (counter_int st' name + 1) \<and>
           counter_int st1 name = counter_int st' name + 1 \<and>
           (\<forall>n \<in> set (tickets ps). n < counter_int st' name + 1) \<and>
           (\<forall>n \<in> set (returned ps). n < counter_int st' name + 1)"
    and "\<forall>doc. ps ! i = Fetched doc \<longrightarrow>
           (\<exists>v. doc ''value'' = Some (BInt v) \<and>
                proc_step configured name (ps ! i) st' = (Done (Inr v), st'))"
proof -
  have b: "callers_bound name ps st'"
    using callers_bound_run [OF callers_bound_initial [OF nn, of N], of configured sched] run by simp
  show "\<forall>doc st1. proc_step configured name (ps ! i) st' = (Fetched doc, st1) \<longrightarrow>
           returned_value doc = Inr (counter_int st' name + 1) \<and>
           counter_int st1 name = counter_int st' name + 1 \<and>
           (\<forall>n \<in> set (tickets ps). n < counter_int st' name + 1) \<and>
           (\<forall>n \<in> set (returned ps). n < counter_int st' name + 1)"
  proof (intro allI impI)
    fix doc st1 assume s: "proc_step configured name (ps ! i) st' = (Fetched doc, st1)"
    have t: "\<forall>n \<in> set (tickets ps). n < counter_int st' name + 1"
      using update_step_facts(5) [OF b i s] .
    then have "\<forall>n \<in> set (returned ps). n < counter_int st' name + 1"
      using returned_subset_tickets [of ps] by blast
    then show "returned_value doc = Inr (counter_int st' name + 1) \<and>
           counter_int st1 name = counter_int st' name + 1 \<and>
           (\<forall>n \<in> set (tickets ps). n < counter_int st' name + 1) \<and>
           (\<forall>n \<in> set (returned ps). n < counter_int st' name + 1)"
      using update_step_facts(3,4) [OF b i s] t by blast
  qed
  show "\<forall>doc. ps ! i = Fetched doc \<longrightarrow>
           (\<exists>v. doc ''value'' = Some (BInt v) \<and>
                proc_step configured name (ps ! i) st' = (Done (Inr v), st'))"
  proof (intro allI impI)
    fix doc assume f: "ps ! i = Fetched doc"
    obtain v where "doc ''value'' = Some (BInt v)"
      and "proc_step configured name (ps ! i) st' = (Done (Inr v), st')"
      using return_step_facts [OF b i f, of configured] by auto
    then show "\<exists>v. doc ''value'' = Some (BInt v) \<and>
                proc_step configured name (ps ! i) st' = (Done (Inr v), st')"
      by (intro exI conjI)
  qed
qed

lemma minus_one_two_calls:
  "fst (next_all True [''coupon'', ''coupon''] minus_one_store) = [Inr 1, Inr 1]"
  by (simp add: minus_one_store_def get_next_sequence_def find_one_and_update_def inc_field_def
      returned_value_def dict_get_def py_or_def)

lemma two_callers_before_return:
  "run_schedule True ''coupon'' [0, 1, 1] (replicate 2 Ready, fresh_store) =
     ([Fetched [''value'' \<mapsto> BInt 1], Done (Inr 2)],
      \<lparr>counters = [''coupon'' \<mapsto> [''value'' \<mapsto> BInt 2]], collections = (\<lambda>_. [])\<rparr>)"
  by (simp add: eval_nat_numeral fresh_store_def find_one_and_update_def inc_field_def
      returned_value_def dict_get_def py_or_def)

lemma two_callers_after_return:
  "fst (run_schedule True ''coupon'' [0, 1, 1, 0] (replicate 2 Ready, fresh_store)) =
     [Done (Inr 1), Done (Inr 2)]"
  by (simp add: eval_nat_numeral fresh_store_def find_one_and_update_def inc_field_def
      returned_value_def dict_get_def py_or_def)

lemma one_update:
  "run_schedule True ''coupon'' [0] (replicate 2 Ready, fresh_store) =
     ([Fetched [''value'' \<mapsto> BInt 1], Ready],
      \<lparr>counters = [''coupon'' \<mapsto> [''value'' \<mapsto> BInt 1]], collections = (\<lambda>_. [])\<rparr>)"
  by (simp add: eval_nat_numeral fresh_store_def find_one_and_update_def inc_field_def)

lemma second_update:
  "proc_step True ''coupon'' Ready
     \<lparr>counters = [''coupon'' \<mapsto> [''value'' \<mapsto> BInt 1]], collections = (\<lambda>_. [])\<rparr> =
   (Fetched [''value'' \<mapsto> BInt 2],
    \<lparr>counters = [''coupon'' \<mapsto> [''value'' \<mapsto> BInt 2]], collections = (\<lambda>_. [])\<rparr>)"
  by (simp add: find_one_and_update_def inc_field_def)

text \<open>
  C7, as amended: for every sequence name the stored counter never decreases, over one
  call of \<^verbatim>\<open>_get_next_sequence\<close> on any name, over any run of such calls, and over any
  interleaving of concurrent callers; and a request changes the counters only through
  its one call of the sequencer. When the counter holds no negative number (or there
  is none yet), it stays so, and the numbers returned for the name by calls made one
  after the other are strictly increasing in call order, each greater than the
  counter before the run and at most the counter after it. Among concurrent callers
  started on such a counter, each update hands its caller the number it will return,
  and that number is greater than every number handed out or returned before the
  update; the order in which the callers then return is not constrained.
\<close>

theorem counter_monotone_returns_increase:
  "counter_int st name \<le> counter_int (snd (get_next_sequence configured st nm)) name \<and>
   counter_int st name \<le> counter_int (snd (next_all configured names st)) name \<and>
   counter_int st name \<le> counter_int (snd (run_schedule configured name sched (qs, st))) name \<and>
   counters (fst (snd (generate_coupon e st))) =
     counters (snd (get_next_sequence (db_configured e) st ''coupon'')) \<and>
   (counter_nonneg st name \<longrightarrow>
      counter_nonneg (snd (next_all configured names st)) name \<and>
      sorted_wrt (<) (returned_for name names (fst (next_all configured names st))) \<and>
      (\<forall>n \<in> set (returned_for name names (fst (next_all configured names st))).
         counter_int st name < n \<and> n \<le> counter_int (snd (next_all configured names st)) name)) \<and>
   (counter_nonneg st name \<and>
    run_schedule configured name sched (replicate N Ready, st) = (ps, st') \<and> i < length ps \<longrightarrow>
      (\<forall>doc st1. proc_step configured name (ps ! i) st' = (Fetched doc, st1) \<longrightarrow>
         returned_value doc = Inr (counter_int st' name + 1) \<and>
         counter_int st1 name = counter_int st' name + 1 \<and>
         (\<forall>n \<in> set (tickets ps). n < counter_int st' name + 1) \<and>
         (\<forall>n \<in> set (returned ps). n < counter_int st' name + 1)) \<and>
      (\<forall>doc. ps ! i = Fetched doc \<longrightarrow>
         (\<exists>v. doc ''value'' = Some (BInt v) \<and>
              proc_step configured name (ps ! i) st' = (Done (Inr v), st'))))"
proof -
  have a: "counter_int st name \<le> counter_int (snd (get_next_sequence configured st nm)) name"
    by (rule counter_int_step)
  have b: "counter_int st name \<le> counter_int (snd (next_all configured names st)) name"
    by (rule counter_int_next_all)
  have c: "counter_int st name \<le> counter_int (snd (run_schedule configured name sched (qs, st))) name"
    by (rule counter_int_run_schedule)
  have d: "counters (fst (snd (generate_coupon e st))) =
     counters (snd (get_next_sequence (db_configured e) st ''coupon''))"
    by (rule generate_coupon_counters)
  have f: "counter_nonneg st name \<longrightarrow>
      counter_nonneg (snd (next_all configured names st)) name \<and>
      sorted_wrt (<) (returned_for name names (fst (next_all configured names st))) \<and>
      (\<forall>n \<in> set (returned_for name names (fst (next_all configured names st))).
         counter_int st name < n \<and> n \<le> counter_int (snd (next_all configured names st)) name)"
    using counter_nonneg_next_all [of st name configured names]
      returned_for_increasing [of st name names configured] by blast
  have g: "counter_nonneg st name \<and>
    run_schedule configured name sched (replicate N Ready, st) = (ps, st') \<and> i < length ps \<longrightarrow>
      (\<forall>doc st1. proc_step configured name (ps ! i) st' = (Fetched doc, st1) \<longrightarrow>
         returned_value doc = Inr (counter_int st' name + 1) \<and>
         counter_int st1 name = counter_int st' name + 1 \<and>
         (\<forall>n \<in> set (tickets ps). n < counter_int st' name + 1) \<and>
         (\<forall>n \<in> set (returned ps). n < counter_int st' name + 1)) \<and>
      (\<forall>doc. ps ! i = Fetched doc \<longrightarrow>
         (\<exists>v. doc ''value'' = Some (BInt v) \<and>
              proc_step configured name (ps ! i) st' = (Done (Inr v), st')))"
  proof (intro impI)
    assume h: "counter_nonneg st name \<and>
      run_schedule configured name sched (replicate N Ready, st) = (ps, st') \<and> i < length ps"
    then have nn: "counter_nonneg st name"
      and run: "run_schedule configured name sched (replicate N Ready, st) = (ps, st')"
      and i: "i < length ps" by simp_all
    show "(\<forall>doc st1. proc_step configured name (ps ! i) st' = (Fetched doc, st1) \<longrightarrow>
         returned_value doc = Inr (counter_int st' name + 1) \<and>
         counter_int st1 name = counter_int st' name + 1 \<and>
         (\<forall>n \<in> set (tickets ps). n < counter_int st' name + 1) \<and>
         (\<forall>n \<in> set (returned ps). n < counter_int st' name + 1)) \<and>
      (\<forall>doc. ps ! i = Fetched doc \<longrightarrow>
         (\<exists>v. doc ''value'' = Some (BInt v) \<and>
              proc_step configured name (ps ! i) st' = (Done (Inr v), st')))"
      using update_hands_greater(1) [OF nn run i] update_hands_greater(2) [OF nn run i]
      by (rule conjI)
  qed
  from a b c d f g show ?thesis by (intro conjI)
qed

theorem counter_monotone_returns_increase_witness:
  "counter_nonneg fresh_store ''coupon'' \<and>
   returned_for ''coupon'' [''coupon'', ''other'', ''coupon'', ''coupon'']
     (fst (next_all True [''coupon'', ''other'', ''coupon'', ''coupon''] fresh_store)) = [1, 2, 3] \<and>
   sorted_wrt (<) (returned_for ''coupon'' [''coupon'', ''other'', ''coupon'', ''coupon'']
     (fst (next_all True [''coupon'', ''other'', ''coupon'', ''coupon''] fresh_store))) \<and>
   counter_int fresh_store ''coupon'' = 0 \<and>
   counter_int (snd (next_all True [''coupon'', ''other'', ''coupon'', ''coupon''] fresh_store)) ''coupon'' = 3 \<and>
   run_schedule True ''coupon'' [0] (replicate 2 Ready, fresh_store) =
     ([Fetched [''value'' \<mapsto> BInt 1], Ready],
      \<lparr>counters = [''coupon'' \<mapsto> [''value'' \<mapsto> BInt 1]], collections = (\<lambda>_. [])\<rparr>) \<and>
   proc_step True ''coupon'' Ready
     \<lparr>counters = [''coupon'' \<mapsto> [''value'' \<mapsto> BInt 1]], collections = (\<lambda>_. [])\<rparr> =
   (Fetched [''value'' \<mapsto> BInt 2],
    \<lparr>counters = [''coupon'' \<mapsto> [''value'' \<mapsto> BInt 2]], collections = (\<lambda>_. [])\<rparr>) \<and>
   returned_value [''value'' \<mapsto> BInt 2] = Inr 2 \<and>
   list_all (\<lambda>n. n < 2) (tickets [Fetched [''value'' \<mapsto> BInt 1], Ready]) \<and>
   proc_step True ''coupon'' (Fetched [''value'' \<mapsto> BInt 1])
     \<lparr>counters = [''coupon'' \<mapsto> [''value'' \<mapsto> BInt 1]], collections = (\<lambda>_. [])\<rparr> =
   (Done (Inr 1),
    \<lparr>counters = [''coupon'' \<mapsto> [''value'' \<mapsto> BInt 1]], collections = (\<lambda>_. [])\<rparr>)"
proof -
  let ?names = "[''coupon'', ''other'', ''coupon'', ''coupon'']"
  let ?ps = "[Fetched [''value'' \<mapsto> BInt 1], Ready]"
  let ?s1 = "\<lparr>counters = [''coupon'' \<mapsto> [''value'' \<mapsto> BInt 1]], collections = (\<lambda>_. [])\<rparr>"
  let ?s2 = "\<lparr>counters = [''coupon'' \<mapsto> [''value'' \<mapsto> BInt 2]], collections = (\<lambda>_. [])\<rparr>"
  let ?d1 = "[''value'' \<mapsto> BInt 1]"
  let ?d2 = "[''value'' \<mapsto> BInt 2]"
  have a: "counter_nonneg fresh_store ''coupon''"
    by (simp add: counter_nonneg_def stored_value_def fresh_store_def)
  have b: "returned_for ''coupon'' ?names (fst (next_all True ?names fresh_store)) = [1, 2, 3]"
    unfolding fresh_calls by simp
  have c: "counter_int fresh_store ''coupon'' = 0"
    by (simp add: counter_int_def stored_value_def fresh_store_def)
  have d: "counter_int (snd (next_all True ?names fresh_store)) ''coupon'' = 3"
    unfolding fresh_calls by (simp add: counter_int_def stored_value_def)
  have c1: "counter_int ?s1 ''coupon'' = 1" by (simp add: counter_int_def stored_value_def)
  note t1 = counter_monotone_returns_increase [of fresh_store "''coupon''" True "''coupon''" ?names
      "[0]" "replicate 2 Ready" working_env 2 ?ps ?s1 1]
  note t0 = counter_monotone_returns_increase [of fresh_store "''coupon''" True "''coupon''" ?names
      "[0]" "replicate 2 Ready" working_env 2 ?ps ?s1 0]
  have e: "sorted_wrt (<) (returned_for ''coupon'' ?names (fst (next_all True ?names fresh_store)))"
    using a t1 by blast
  have h1: "counter_nonneg fresh_store ''coupon'' \<and>
      run_schedule True ''coupon'' [0] (replicate 2 Ready, fresh_store) = (?ps, ?s1) \<and> 1 < length ?ps"
    using a one_update by simp
  have h0: "counter_nonneg fresh_store ''coupon'' \<and>
      run_schedule True ''coupon'' [0] (replicate 2 Ready, fresh_store) = (?ps, ?s1) \<and> 0 < length ?ps"
    using a one_update by simp
  have s2: "proc_step True ''coupon'' (?ps ! 1) ?s1 = (Fetched ?d2, ?s2)"
    using second_update by simp
  have u: "returned_value ?d2 = Inr (counter_int ?s1 ''coupon'' + 1) \<and>
      (\<forall>n \<in> set (tickets ?ps). n < counter_int ?s1 ''coupon'' + 1)"
    using t1 h1 s2 by blast
  have f0: "?ps ! 0 = Fetched ?d1" by simp
  have "\<exists>v. ?d1 ''value'' = Some (BInt v) \<and> proc_step True ''coupon'' (?ps ! 0) ?s1 = (Done (Inr v), ?s1)"
    using t0 h0 f0 by blast
  then have r: "proc_step True ''coupon'' (Fetched ?d1) ?s1 = (Done (Inr 1), ?s1)" by auto
  have u1: "returned_value ?d2 = Inr 2" using u c1 by simp
  have u2: "list_all (\<lambda>n. n < 2) (tickets ?ps)" using u c1 by (simp add: list_all_iff)
  show ?thesis using a b e c d one_update second_update u1 u2 r by (intro conjI)
qed

text \<open>
  C7 as stated fails in two ways. On a counter that holds -1, two calls one after the
  other return 1 and 1. And of two concurrent callers on a fresh counter, the one
  whose update came first may return its 1 after the other has returned 2.
\<close>

theorem strict_increase_counterexample:
  "fst (next_all True [''coupon'', ''coupon''] minus_one_store) = [Inr 1, Inr 1] \<and>
   \<not> sorted_wrt (<) (returned_for ''coupon'' [''coupon'', ''coupon'']
        (fst (next_all True [''coupon'', ''coupon''] minus_one_store))) \<and>
   fst (run_schedule True ''coupon'' [0, 1, 1] (replicate 2 Ready, fresh_store)) =
     [Fetched [''value'' \<mapsto> BInt 1], Done (Inr 2)] \<and>
   fst (run_schedule True ''coupon'' [0, 1, 1, 0] (replicate 2 Ready, fresh_store)) =
     [Done (Inr 1), Done (Inr 2)]"
  by (simp only: minus_one_two_calls two_callers_before_return two_callers_after_return fst_conv)
    simp

end
